theory Spec2Isabelle
  imports Main "HOL-Library.Word"
begin

section \<open>Field types and values (db/types.hpp, db/Tuple.hpp)\<close>

type_synonym byte = "8 word"

text \<open>The enumeration \<^verbatim>\<open>type_t\<close>, as the switch statements of Tuple.cpp use it.
  A value outside the three enumerators cannot be built here, so the
  \<^verbatim>\<open>throw std::logic_error("TupleDesc: unknown type")\<close> after the switch of
  \<^verbatim>\<open>size_of\<close> has no branch in the model.\<close>

text \<open>The enumerators are \<^verbatim>\<open>type_t::INT\<close>, \<^verbatim>\<open>type_t::DOUBLE\<close> and \<^verbatim>\<open>type_t::CHAR\<close>; the
  suffix keeps them apart from the library's notation of the same names.\<close>

datatype type_t = INT_T | DOUBLE_T | CHAR_T

text \<open>\<^verbatim>\<open>field_t = std::variant<int, double, std::string>\<close>. An \<^verbatim>\<open>int\<close> is a 32-bit
  word. A \<^verbatim>\<open>double\<close> is kept as its 64-bit object representation: the codec only ever
  copies it with \<^verbatim>\<open>memcpy\<close>, no arithmetic is performed on it. A \<^verbatim>\<open>std::string\<close> is a
  sequence of bytes (it may contain zero bytes).\<close>

datatype field_t = IntF "32 word" | DoubleF "64 word" | StringF "byte list"

text \<open>The exceptions of the code, by kind: \<^verbatim>\<open>std::logic_error\<close>, \<^verbatim>\<open>std::out_of_range\<close>,
  \<^verbatim>\<open>std::bad_variant_access\<close> (raised by \<^verbatim>\<open>std::get\<close>), and the invalid-slot error of the
  slotted page.\<close>

datatype error = LogicError | OutOfRange | BadVariantAccess | InvalidSlot

type_synonym 'a result = "error + 'a"

text \<open>Modelled from the spec: the width constants of db/types.hpp, which is not part of
  the sources at hand (int = 4, double = 8, text = 64).\<close>

definition INT_SIZE :: nat where "INT_SIZE = 4"
definition DOUBLE_SIZE :: nat where "DOUBLE_SIZE = 8"
definition CHAR_SIZE :: nat where "CHAR_SIZE = 64"

section \<open>Tuple (Tuple.cpp, lines 11-23)\<close>

datatype Tuple = Tuple (Tuple_fields: "field_t list")

text \<open>\<^verbatim>\<open>fields.at(i)\<close> throws \<^verbatim>\<open>std::out_of_range\<close> when \<open>i\<close> is not an index. The chain of
  \<^verbatim>\<open>std::holds_alternative\<close> tests of \<^verbatim>\<open>field_type\<close> is exhaustive for the variant, so its
  final \<^verbatim>\<open>throw\<close> is not reached.\<close>

fun held_alternative :: "field_t \<Rightarrow> type_t" where
  "held_alternative (IntF _) = INT_T"
| "held_alternative (DoubleF _) = DOUBLE_T"
| "held_alternative (StringF _) = CHAR_T"

definition Tuple_field_type :: "Tuple \<Rightarrow> nat \<Rightarrow> type_t result" where
  "Tuple_field_type t i =
     (if i < length (Tuple_fields t) then Inr (held_alternative (Tuple_fields t ! i)) else Inl OutOfRange)"

definition Tuple_size :: "Tuple \<Rightarrow> nat" where
  "Tuple_size t = length (Tuple_fields t)"

definition Tuple_get_field :: "Tuple \<Rightarrow> nat \<Rightarrow> field_t result" where
  "Tuple_get_field t i = (if i < length (Tuple_fields t) then Inr (Tuple_fields t ! i) else Inl OutOfRange)"

section \<open>TupleDesc (Tuple.cpp, lines 26-168)\<close>

text \<open>The private members of the class: \<open>td_types\<close> is \<^verbatim>\<open>types_\<close>, \<open>td_names\<close> is
  \<^verbatim>\<open>names_\<close>, \<open>td_offsets\<close> is \<^verbatim>\<open>offsets_\<close>, \<open>td_length\<close> is \<^verbatim>\<open>length_\<close> and
  \<open>td_name2idx\<close> is \<^verbatim>\<open>name2idx_\<close> (a name cannot end in an underscore here). Sizes and offsets are \<^verbatim>\<open>size_t\<close>; they are sums of
  at most a few thousand widths of at most 64, far from wrapping, and are natural numbers
  here.\<close>

record TupleDesc =
  td_types :: "type_t list"
  td_names :: "string list"
  td_offsets :: "nat list"
  td_length :: nat
  td_name2idx :: "string \<rightharpoonup> nat"

text \<open>The default constructor \<^verbatim>\<open>TupleDesc() = default\<close>.\<close>

definition TupleDesc_default :: TupleDesc where
  "TupleDesc_default =
     \<lparr>td_types = [], td_names = [], td_offsets = [], td_length = 0, td_name2idx = Map.empty\<rparr>"

text \<open>Lines 34-39: the loop over the names with the set \<^verbatim>\<open>seen\<close>;
  \<^verbatim>\<open>seen.insert(n).second\<close> is false when \<open>n\<close> is in the set already. The result tells
  whether the loop throws.\<close>

fun has_duplicate :: "string set \<Rightarrow> string list \<Rightarrow> bool" where
  "has_duplicate seen [] = False"
| "has_duplicate seen (n # ns) = (if n \<in> seen then True else has_duplicate (insert n seen) ns)"

text \<open>Lines 45-52: the lambda \<^verbatim>\<open>size_of\<close>.\<close>

fun size_of :: "type_t \<Rightarrow> nat" where
  "size_of INT_T = INT_SIZE"
| "size_of DOUBLE_T = DOUBLE_SIZE"
| "size_of CHAR_T = CHAR_SIZE"

text \<open>Lines 54-59: the loop that fills \<^verbatim>\<open>offsets_\<close> and \<^verbatim>\<open>name2idx_\<close>; it returns the two
  containers and the final value of \<^verbatim>\<open>off\<close>. \<^verbatim>\<open>emplace\<close> keeps an entry that exists.\<close>

function layout_loop ::
  "type_t list \<Rightarrow> string list \<Rightarrow> nat \<Rightarrow> nat \<Rightarrow> nat list \<Rightarrow> (string \<rightharpoonup> nat)
     \<Rightarrow> nat list \<times> nat \<times> (string \<rightharpoonup> nat)" where
  "layout_loop tys nms i off offs m =
     (if i < length tys
      then layout_loop tys nms (Suc i) (off + size_of (tys ! i)) (offs[i := off])
             (if m (nms ! i) = None then m(nms ! i \<mapsto> i) else m)
      else (offs, off, m))"
  by pat_completeness auto
termination
  by (relation "measure (\<lambda>(tys, nms, i, off, offs, m). length tys - i)") auto

declare layout_loop.simps [simp del]

definition TupleDesc_new :: "type_t list \<Rightarrow> string list \<Rightarrow> TupleDesc result" where
  "TupleDesc_new types names =
     (if length types \<noteq> length names then Inl LogicError
      else if has_duplicate {} names then Inl LogicError
      else (case layout_loop types names 0 0 (replicate (length types) 0) Map.empty of
              (offs, off, m) \<Rightarrow>
                Inr \<lparr>td_types = types, td_names = names, td_offsets = offs, td_length = off,
                     td_name2idx = m\<rparr>))"

definition TupleDesc_size :: "TupleDesc \<Rightarrow> nat" where
  "TupleDesc_size td = length (td_types td)"

definition TupleDesc_length :: "TupleDesc \<Rightarrow> nat" where
  "TupleDesc_length td = td_length td"

definition TupleDesc_offset_of :: "TupleDesc \<Rightarrow> nat \<Rightarrow> nat result" where
  "TupleDesc_offset_of td index =
     (if index \<ge> length (td_offsets td) then Inl OutOfRange else Inr (td_offsets td ! index))"

definition TupleDesc_index_of :: "TupleDesc \<Rightarrow> string \<Rightarrow> nat result" where
  "TupleDesc_index_of td name =
     (case td_name2idx td name of None \<Rightarrow> Inl OutOfRange | Some i \<Rightarrow> Inr i)"

text \<open>Lines 63-69. The loop calls \<^verbatim>\<open>tuple.field_type(i)\<close>, which can throw; the model keeps
  that branch, so that "compatible never throws" is a statement to prove.\<close>

function compatible_loop :: "TupleDesc \<Rightarrow> Tuple \<Rightarrow> nat \<Rightarrow> bool result" where
  "compatible_loop td t i =
     (if i < length (td_types td)
      then (case Tuple_field_type t i of
              Inl e \<Rightarrow> Inl e
            | Inr ty \<Rightarrow> if ty \<noteq> td_types td ! i then Inr False else compatible_loop td t (Suc i))
      else Inr True)"
  by pat_completeness auto
termination
  by (relation "measure (\<lambda>(td, t, i). length (td_types td) - i)") auto

declare compatible_loop.simps [simp del]

definition TupleDesc_compatible :: "TupleDesc \<Rightarrow> Tuple \<Rightarrow> bool result" where
  "TupleDesc_compatible td t =
     (if Tuple_size t \<noteq> length (td_types td) then Inr False else compatible_loop td t 0)"

subsection \<open>The byte-level codec\<close>

text \<open>\<^verbatim>\<open>std::memcpy(ptr, &v, n)\<close> copies the \<open>n\<close> bytes of the object representation of
  \<open>v\<close>, and \<^verbatim>\<open>std::memcpy(&v, ptr, n)\<close> reads them back. The host stores the least
  significant byte first.\<close>

fun object_bytes :: "nat \<Rightarrow> nat \<Rightarrow> byte list" where
  "object_bytes 0 v = []"
| "object_bytes (Suc n) v = of_nat (v mod 256) # object_bytes n (v div 256)"

fun object_value :: "byte list \<Rightarrow> nat" where
  "object_value [] = 0"
| "object_value (b # bs) = unat b + 256 * object_value bs"

text \<open>A buffer \<^verbatim>\<open>uint8_t *data\<close> is the list of the bytes it points to; \<^verbatim>\<open>data + off\<close> is
  \<open>drop off data\<close>. Writing \<open>src\<close> at offset \<open>off\<close> replaces the bytes
  \<open>off ..< off + length src\<close>. The code never checks the size of the buffer: the caller
  has to supply at least \<^verbatim>\<open>length()\<close> bytes, and the statements below assume it.\<close>

definition memcpy_to :: "byte list \<Rightarrow> nat \<Rightarrow> byte list \<Rightarrow> byte list" where
  "memcpy_to data off src = take off data @ src @ drop (off + length src) data"

text \<open>Lines 126-150: the loop of \<^verbatim>\<open>serialize\<close>. \<^verbatim>\<open>t.get_field(i)\<close> can throw
  \<^verbatim>\<open>std::out_of_range\<close> and \<^verbatim>\<open>std::get\<close> can throw \<^verbatim>\<open>std::bad_variant_access\<close>; the
  buffer written so far is returned with the error.\<close>

function serialize_loop ::
  "TupleDesc \<Rightarrow> Tuple \<Rightarrow> nat \<Rightarrow> byte list \<Rightarrow> unit result \<times> byte list" where
  "serialize_loop td t i data =
     (if i < length (td_types td)
      then (let off = td_offsets td ! i in
            case Tuple_get_field t i of
              Inl e \<Rightarrow> (Inl e, data)
            | Inr f \<Rightarrow>
               (case td_types td ! i of
                  INT_T \<Rightarrow>
                    (case f of
                       IntF v \<Rightarrow>
                         serialize_loop td t (Suc i)
                           (memcpy_to data off (object_bytes INT_SIZE (unat v)))
                     | _ \<Rightarrow> (Inl BadVariantAccess, data))
                | DOUBLE_T \<Rightarrow>
                    (case f of
                       DoubleF v \<Rightarrow>
                         serialize_loop td t (Suc i)
                           (memcpy_to data off (object_bytes DOUBLE_SIZE (unat v)))
                     | _ \<Rightarrow> (Inl BadVariantAccess, data))
                | CHAR_T \<Rightarrow>
                    (case f of
                       StringF s \<Rightarrow>
                         (let n = (if length s > CHAR_SIZE then CHAR_SIZE else length s);
                              data1 = memcpy_to data off (take n s);
                              data2 = (if n < CHAR_SIZE
                                       then memcpy_to data1 (off + n) (replicate (CHAR_SIZE - n) 0)
                                       else data1)
                          in serialize_loop td t (Suc i) data2)
                     | _ \<Rightarrow> (Inl BadVariantAccess, data))))
      else (Inr (), data))"
  by pat_completeness auto
termination
  by (relation "measure (\<lambda>(td, t, i, data). length (td_types td) - i)") auto

declare serialize_loop.simps [simp del]

text \<open>Lines 121-151. The result is the outcome and the buffer after the call.\<close>

definition TupleDesc_serialize ::
  "TupleDesc \<Rightarrow> byte list \<Rightarrow> Tuple \<Rightarrow> unit result \<times> byte list" where
  "TupleDesc_serialize td data t =
     (case TupleDesc_compatible td t of
        Inl e \<Rightarrow> (Inl e, data)
      | Inr c \<Rightarrow> if \<not> c then (Inl LogicError, data) else serialize_loop td t 0 data)"

text \<open>Line 112: \<^verbatim>\<open>while (len < CHAR_SIZE && csrc[len] != '\0') ++len;\<close>\<close>

function text_length_loop :: "byte list \<Rightarrow> nat \<Rightarrow> nat" where
  "text_length_loop csrc len =
     (if len < CHAR_SIZE \<and> csrc ! len \<noteq> 0 then text_length_loop csrc (Suc len) else len)"
  by pat_completeness auto
termination
  by (relation "measure (\<lambda>(csrc, len). CHAR_SIZE - len)") auto

declare text_length_loop.simps [simp del]

text \<open>Lines 94-118: the loop of \<^verbatim>\<open>deserialize\<close>, with the vector \<^verbatim>\<open>out\<close>. Nothing in it
  throws.\<close>

function deserialize_loop :: "TupleDesc \<Rightarrow> byte list \<Rightarrow> nat \<Rightarrow> field_t list \<Rightarrow> Tuple" where
  "deserialize_loop td data i out =
     (if i < length (td_types td)
      then (let ptr = drop (td_offsets td ! i) data in
            case td_types td ! i of
              INT_T \<Rightarrow>
                deserialize_loop td data (Suc i)
                  (out @ [IntF (of_nat (object_value (take INT_SIZE ptr)))])
            | DOUBLE_T \<Rightarrow>
                deserialize_loop td data (Suc i)
                  (out @ [DoubleF (of_nat (object_value (take DOUBLE_SIZE ptr)))])
            | CHAR_T \<Rightarrow>
                (let len = text_length_loop ptr 0
                 in deserialize_loop td data (Suc i) (out @ [StringF (take len ptr)])))
      else Tuple out)"
  by pat_completeness auto
termination
  by (relation "measure (\<lambda>(td, data, i, out). length (td_types td) - i)") auto

declare deserialize_loop.simps [simp del]

definition TupleDesc_deserialize :: "TupleDesc \<Rightarrow> byte list \<Rightarrow> Tuple" where
  "TupleDesc_deserialize td data = deserialize_loop td data 0 []"

text \<open>Lines 153-168: the two loops push \<^verbatim>\<open>types_[i]\<close> and \<^verbatim>\<open>names_[i]\<close> for every
  \<open>i < size()\<close>, and the constructor is called on the result.\<close>

definition TupleDesc_merge :: "TupleDesc \<Rightarrow> TupleDesc \<Rightarrow> TupleDesc result" where
  "TupleDesc_merge td1 td2 =
     TupleDesc_new
       (map (\<lambda>i. td_types td1 ! i) [0..<TupleDesc_size td1] @
        map (\<lambda>i. td_types td2 ! i) [0..<TupleDesc_size td2])
       (map (\<lambda>i. td_names td1 ! i) [0..<TupleDesc_size td1] @
        map (\<lambda>i. td_names td2 ! i) [0..<TupleDesc_size td2])"

section \<open>The slotted page\<close>

text \<open>Modelled from the spec: the class \<^verbatim>\<open>HeapPage\<close> (db/HeapPage.hpp and HeapPage.cpp are
  not part of the sources at hand). The spec fixes the page as a bounded array of record
  slots with one liveness marker per slot and leaves the byte layout of the markers open,
  so a page is the list of its slots, each a liveness flag and the bytes of the record
  area; the capacity of the page is the length of the list. A freshly zeroed \<^verbatim>\<open>Page{}\<close> has
  every slot dead and every byte zero.\<close>

type_synonym Page = "(bool \<times> byte list) list"

definition zero_page :: "nat \<Rightarrow> nat \<Rightarrow> Page" where
  "zero_page cap len = replicate cap (False, replicate len 0)"

text \<open>Modelled from the spec: \<^verbatim>\<open>end()\<close> is the capacity.\<close>

definition HeapPage_end :: "Page \<Rightarrow> nat" where
  "HeapPage_end pg = length pg"

text \<open>Modelled from the spec: the search for the lowest live slot at or after \<open>s\<close>, and
  for the lowest dead one; both return the capacity when there is none.\<close>

function first_live :: "Page \<Rightarrow> nat \<Rightarrow> nat" where
  "first_live pg s =
     (if s < length pg then (if fst (pg ! s) then s else first_live pg (Suc s)) else length pg)"
  by pat_completeness auto
termination
  by (relation "measure (\<lambda>(pg, s). length pg - s)") auto

declare first_live.simps [simp del]

function first_dead :: "Page \<Rightarrow> nat \<Rightarrow> nat" where
  "first_dead pg s =
     (if s < length pg then (if \<not> fst (pg ! s) then s else first_dead pg (Suc s)) else length pg)"
  by pat_completeness auto
termination
  by (relation "measure (\<lambda>(pg, s). length pg - s)") auto

declare first_dead.simps [simp del]

text \<open>Modelled from the spec: \<^verbatim>\<open>begin()\<close> returns the lowest live slot index or \<^verbatim>\<open>end()\<close>;
  \<^verbatim>\<open>next(slot)\<close> advances to the next strictly greater live slot index or to \<^verbatim>\<open>end()\<close>.\<close>

definition HeapPage_begin :: "Page \<Rightarrow> nat" where
  "HeapPage_begin pg = first_live pg 0"

definition HeapPage_next :: "Page \<Rightarrow> nat \<Rightarrow> nat" where
  "HeapPage_next pg s = first_live pg (Suc s)"

text \<open>Modelled from the spec: \<^verbatim>\<open>insertTuple\<close> claims the first dead slot, marks it live and
  serializes the record into it; on a full page it returns false and changes nothing. The
  result is the outcome and the page buffer after the call.\<close>

definition HeapPage_insertTuple :: "TupleDesc \<Rightarrow> Page \<Rightarrow> Tuple \<Rightarrow> bool result \<times> Page" where
  "HeapPage_insertTuple td pg t =
     (let s = first_dead pg 0 in
      if s = length pg then (Inr False, pg)
      else (case TupleDesc_serialize td (snd (pg ! s)) t of
              (Inl e, bytes) \<Rightarrow> (Inl e, pg[s := (True, bytes)])
            | (Inr _, bytes) \<Rightarrow> (Inr True, pg[s := (True, bytes)])))"

text \<open>Modelled from the spec: \<^verbatim>\<open>deleteTuple\<close> fails with an out-of-range error when the index
  is beyond the capacity and with an invalid-slot error when the slot is dead; otherwise it
  marks the slot dead and leaves its bytes. \<^verbatim>\<open>getTuple\<close> fails in the same cases and
  otherwise deserializes the slot.\<close>

definition HeapPage_deleteTuple :: "Page \<Rightarrow> nat \<Rightarrow> unit result \<times> Page" where
  "HeapPage_deleteTuple pg s =
     (if s \<ge> length pg then (Inl OutOfRange, pg)
      else if \<not> fst (pg ! s) then (Inl InvalidSlot, pg)
      else (Inr (), pg[s := (False, snd (pg ! s))]))"

definition HeapPage_getTuple :: "TupleDesc \<Rightarrow> Page \<Rightarrow> nat \<Rightarrow> Tuple result" where
  "HeapPage_getTuple td pg s =
     (if s \<ge> length pg then Inl OutOfRange
      else if \<not> fst (pg ! s) then Inl InvalidSlot
      else Inr (TupleDesc_deserialize td (snd (pg ! s))))"

section \<open>The heap file (HeapFile.cpp)\<close>

text \<open>The state of a file: its schema, the pages of the store in order, and the page reads
  and writes performed so far. \<open>page_capacity\<close> is the number of slots a fresh page has for
  this schema: the spec derives it from the page size and the record length and allows it
  to be 0 for a record wider than the page.\<close>

datatype io = ReadPage nat | WritePage nat

record HeapFile =
  tupleDesc :: TupleDesc
  page_capacity :: nat
  pages :: "Page list"
  io_trace :: "io list"

text \<open>Modelled from the spec: the page store behind \<^verbatim>\<open>DbFile\<close> (not part of the sources at
  hand). \<^verbatim>\<open>readPage\<close> fails for an index at or past the page count; \<^verbatim>\<open>writePage\<close> at the
  page count appends a page, below it overwrites in place, above it fails.\<close>

definition getNumPages :: "HeapFile \<Rightarrow> nat" where
  "getNumPages f = length (pages f)"

definition readPage :: "HeapFile \<Rightarrow> nat \<Rightarrow> Page result \<times> HeapFile" where
  "readPage f i =
     (if i \<ge> getNumPages f then (Inl OutOfRange, f)
      else (Inr (pages f ! i), f\<lparr>io_trace := io_trace f @ [ReadPage i]\<rparr>))"

definition writePage :: "HeapFile \<Rightarrow> Page \<Rightarrow> nat \<Rightarrow> unit result \<times> HeapFile" where
  "writePage f pg i =
     (if i > getNumPages f then (Inl OutOfRange, f)
      else if i = getNumPages f
      then (Inr (), f\<lparr>pages := pages f @ [pg], io_trace := io_trace f @ [WritePage i]\<rparr>)
      else (Inr (), f\<lparr>pages := (pages f)[i := pg], io_trace := io_trace f @ [WritePage i]\<rparr>))"

text \<open>A position of the scan: \<^verbatim>\<open>Iterator\<close> with its members \<^verbatim>\<open>page\<close> and \<^verbatim>\<open>slot\<close> (the
  reference to the file it belongs to is left out).\<close>

record Iterator =
  page :: nat
  slot :: nat

text \<open>Lines 19-28 of \<^verbatim>\<open>insertTuple\<close>: the attempt on the last page. \<open>Inr True\<close> stands for the
  \<^verbatim>\<open>return\<close> of line 26.\<close>

definition insert_into_last :: "HeapFile \<Rightarrow> Tuple \<Rightarrow> nat \<Rightarrow> bool result \<times> HeapFile" where
  "insert_into_last f t n =
     (case readPage f (n - 1) of
        (Inl e, f1) \<Rightarrow> (Inl e, f1)
      | (Inr pg, f1) \<Rightarrow>
          (case HeapPage_insertTuple (tupleDesc f) pg t of
             (Inl e, pg') \<Rightarrow> (Inl e, f1)
           | (Inr ok, pg') \<Rightarrow>
               if ok
               then (case writePage f1 pg' (n - 1) of
                       (Inl e, f2) \<Rightarrow> (Inl e, f2)
                     | (Inr u, f2) \<Rightarrow> (Inr True, f2))
               else (Inr False, f1)))"

text \<open>Lines 11-35. The result of \<^verbatim>\<open>hp_new.insertTuple(t)\<close> is discarded, as the cast to
  \<^verbatim>\<open>void\<close> does.\<close>

definition HeapFile_insertTuple :: "HeapFile \<Rightarrow> Tuple \<Rightarrow> unit result \<times> HeapFile" where
  "HeapFile_insertTuple f t =
     (case TupleDesc_compatible (tupleDesc f) t of
        Inl e \<Rightarrow> (Inl e, f)
      | Inr c \<Rightarrow>
          if \<not> c then (Inl LogicError, f)
          else (let td = tupleDesc f; n = getNumPages f in
                case (if n > 0 then insert_into_last f t n else (Inr False, f)) of
                  (Inl e, f1) \<Rightarrow> (Inl e, f1)
                | (Inr done, f1) \<Rightarrow>
                    if done then (Inr (), f1)
                    else (let new_page = zero_page (page_capacity f1) (TupleDesc_length td) in
                          case HeapPage_insertTuple td new_page t of
                            (Inl e, pg') \<Rightarrow> (Inl e, f1)
                          | (Inr ok, pg') \<Rightarrow> writePage f1 pg' n)))"

text \<open>Lines 38-47.\<close>

definition HeapFile_deleteTuple :: "HeapFile \<Rightarrow> Iterator \<Rightarrow> unit result \<times> HeapFile" where
  "HeapFile_deleteTuple f it =
     (let n = getNumPages f in
      if page it \<ge> n then (Inl OutOfRange, f)
      else (case readPage f (page it) of
              (Inl e, f1) \<Rightarrow> (Inl e, f1)
            | (Inr pg, f1) \<Rightarrow>
                (case HeapPage_deleteTuple pg (slot it) of
                   (Inl e, pg') \<Rightarrow> (Inl e, f1)
                 | (Inr u, pg') \<Rightarrow> writePage f1 pg' (page it))))"

text \<open>Lines 50-58.\<close>

definition HeapFile_getTuple :: "HeapFile \<Rightarrow> Iterator \<Rightarrow> Tuple result \<times> HeapFile" where
  "HeapFile_getTuple f it =
     (let n = getNumPages f in
      if page it \<ge> n then (Inl OutOfRange, f)
      else (case readPage f (page it) of
              (Inl e, f1) \<Rightarrow> (Inl e, f1)
            | (Inr pg, f1) \<Rightarrow> (HeapPage_getTuple (tupleDesc f) pg (slot it), f1)))"

text \<open>Lines 82-96 of \<^verbatim>\<open>next\<close> and lines 102-112 of \<^verbatim>\<open>begin\<close>: the same loop over the
  pages \<open>p, p + 1, \<dots>\<close> below \<open>n\<close>, which returns the first live slot of the first page
  that has one, and the sentinel \<open>(n, 0)\<close> when no page has.\<close>

function first_tuple_from :: "HeapFile \<Rightarrow> nat \<Rightarrow> nat \<Rightarrow> Iterator result \<times> HeapFile" where
  "first_tuple_from f p n =
     (if p < n
      then (case readPage f p of
              (Inl e, f1) \<Rightarrow> (Inl e, f1)
            | (Inr pg, f1) \<Rightarrow>
                (let b = HeapPage_begin pg in
                 if b \<noteq> HeapPage_end pg then (Inr \<lparr>page = p, slot = b\<rparr>, f1)
                 else first_tuple_from f1 (Suc p) n))
      else (Inr \<lparr>page = n, slot = 0\<rparr>, f))"
  by pat_completeness auto
termination
  by (relation "measure (\<lambda>(f, p, n). n - p)") auto

declare first_tuple_from.simps [simp del]

text \<open>Lines 61-97.\<close>

definition HeapFile_next :: "HeapFile \<Rightarrow> Iterator \<Rightarrow> Iterator result \<times> HeapFile" where
  "HeapFile_next f it =
     (let n = getNumPages f in
      if page it \<ge> n then (Inr \<lparr>page = n, slot = 0\<rparr>, f)
      else (case readPage f (page it) of
              (Inl e, f1) \<Rightarrow> (Inl e, f1)
            | (Inr pg, f1) \<Rightarrow>
                (let s = HeapPage_next pg (slot it) in
                 if s \<noteq> HeapPage_end pg then (Inr (it\<lparr>slot := s\<rparr>), f1)
                 else first_tuple_from f1 (page it + 1) n)))"

text \<open>Lines 100-113 and 116-118.\<close>

definition HeapFile_begin :: "HeapFile \<Rightarrow> Iterator result \<times> HeapFile" where
  "HeapFile_begin f = first_tuple_from f 0 (getNumPages f)"

definition HeapFile_end :: "HeapFile \<Rightarrow> Iterator" where
  "HeapFile_end f = \<lparr>page = getNumPages f, slot = 0\<rparr>"

text \<open>A full scan, as a caller writes it:
  \<^verbatim>\<open>for (auto it = f.begin(); it != f.end(); f.next(it)) visit(it);\<close>
  The result is the list of the positions visited. The loop is run with fuel; \<open>None\<close> means
  that the fuel ran out or that a call threw.\<close>

fun scan_loop :: "nat \<Rightarrow> HeapFile \<Rightarrow> Iterator \<Rightarrow> Iterator list option" where
  "scan_loop 0 f it = None"
| "scan_loop (Suc k) f it =
     (if it = HeapFile_end f then Some []
      else (case HeapFile_next f it of
              (Inl e, f1) \<Rightarrow> None
            | (Inr it', f1) \<Rightarrow> map_option ((#) it) (scan_loop k f1 it')))"

definition full_scan :: "nat \<Rightarrow> HeapFile \<Rightarrow> Iterator list option" where
  "full_scan k f =
     (case HeapFile_begin f of
        (Inl e, f1) \<Rightarrow> None
      | (Inr it, f1) \<Rightarrow> scan_loop k f1 it)"

text \<open>The live slots of a file, page by page and slot by slot, and the lexicographic order
  on positions.\<close>

definition page_locators :: "Page list \<Rightarrow> nat \<Rightarrow> Iterator list" where
  "page_locators ps p =
     map (\<lambda>s. \<lparr>page = p, slot = s\<rparr>) (filter (\<lambda>s. fst (ps ! p ! s)) [0..<length (ps ! p)])"

definition live_locators :: "Page list \<Rightarrow> Iterator list" where
  "live_locators ps = concat (map (page_locators ps) [0..<length ps])"

definition locator_less :: "Iterator \<Rightarrow> Iterator \<Rightarrow> bool" where
  "locator_less a b \<longleftrightarrow> page a < page b \<or> (page a = page b \<and> slot a < slot b)"

section \<open>Auxiliary notions for the statements\<close>

text \<open>The notions below are not code of the repository; the statements are phrased with
  them. \<open>prefix_width tys i\<close> is the sum of the widths of the first \<open>i\<close> types.\<close>

definition prefix_width :: "type_t list \<Rightarrow> nat \<Rightarrow> nat" where
  "prefix_width tys i = sum_list (map size_of (take i tys))"

text \<open>The \<^verbatim>\<open>size_of\<close> bytes that one iteration of the loop of \<^verbatim>\<open>serialize\<close> leaves at the offset
  of a field, and the field that one iteration of the loop of \<^verbatim>\<open>deserialize\<close> reads at a
  pointer.\<close>

fun field_bytes :: "field_t \<Rightarrow> byte list" where
  "field_bytes (IntF v) = object_bytes INT_SIZE (unat v)"
| "field_bytes (DoubleF v) = object_bytes DOUBLE_SIZE (unat v)"
| "field_bytes (StringF s) = take CHAR_SIZE s @ replicate (CHAR_SIZE - length s) 0"

fun decode_field :: "type_t \<Rightarrow> byte list \<Rightarrow> field_t" where
  "decode_field INT_T ptr = IntF (of_nat (object_value (take INT_SIZE ptr)))"
| "decode_field DOUBLE_T ptr = DoubleF (of_nat (object_value (take DOUBLE_SIZE ptr)))"
| "decode_field CHAR_T ptr = StringF (takeWhile (\<lambda>c. c \<noteq> 0) (take CHAR_SIZE ptr))"

text \<open>The layout that the constructor computes: offsets are prefix sums, the length is the
  total.\<close>

definition layout_ok :: "TupleDesc \<Rightarrow> bool" where
  "layout_ok td \<longleftrightarrow>
     length (td_offsets td) = length (td_types td) \<and>
     td_length td = prefix_width (td_types td) (length (td_types td)) \<and>
     (\<forall>j < length (td_types td). td_offsets td ! j = prefix_width (td_types td) j)"

text \<open>A field as it comes back from the buffer: a text is cut to \<^verbatim>\<open>CHAR_SIZE\<close> bytes and then
  before its first zero byte.\<close>

fun stored_field :: "field_t \<Rightarrow> field_t" where
  "stored_field (IntF v) = IntF v"
| "stored_field (DoubleF v) = DoubleF v"
| "stored_field (StringF s) = StringF (takeWhile (\<lambda>c. c \<noteq> 0) (take CHAR_SIZE s))"

text \<open>Concrete inputs: the schema (INT id, CHAR name) of record length 68, a schema with one
  DOUBLE field, a file of three pages with three slots each, and an empty file.\<close>

definition example_schema :: TupleDesc where
  "example_schema =
     \<lparr>td_types = [INT_T, CHAR_T], td_names = [''id'', ''name''], td_offsets = [0, 4],
      td_length = 68, td_name2idx = [''id'' \<mapsto> 0, ''name'' \<mapsto> 1]\<rparr>"

definition score_schema :: TupleDesc where
  "score_schema =
     \<lparr>td_types = [DOUBLE_T], td_names = [''score''], td_offsets = [0],
      td_length = 8, td_name2idx = [''score'' \<mapsto> 0]\<rparr>"

definition example_file :: HeapFile where
  "example_file =
     \<lparr>tupleDesc = example_schema, page_capacity = 3,
      pages = [[(False, replicate 68 0), (True, replicate 68 1), (True, replicate 68 2)],
               [(False, replicate 68 0), (False, replicate 68 0), (False, replicate 68 0)],
               [(True, replicate 68 3), (False, replicate 68 0), (True, replicate 68 4)]],
      io_trace = []\<rparr>"

text \<open>The page that \<^verbatim>\<open>insertTuple\<close> appends: a zeroed page after the insertion of line 33.\<close>

definition inserted_page :: "HeapFile \<Rightarrow> Tuple \<Rightarrow> Page" where
  "inserted_page f t =
     snd (HeapPage_insertTuple (tupleDesc f)
            (zero_page (page_capacity f) (TupleDesc_length (tupleDesc f))) t)"

definition empty_file :: HeapFile where
  "empty_file = \<lparr>tupleDesc = example_schema, page_capacity = 3, pages = [], io_trace = []\<rparr>"

text \<open>The first element of a list of positions, or the sentinel of a file of \<open>n\<close> pages;
  and the live slots that follow a position in its page and in the later pages.\<close>

definition first_or_end :: "nat \<Rightarrow> Iterator list \<Rightarrow> Iterator" where
  "first_or_end n ls = (case ls of [] \<Rightarrow> \<lparr>page = n, slot = 0\<rparr> | l # _ \<Rightarrow> l)"

definition locators_after :: "Page list \<Rightarrow> Iterator \<Rightarrow> Iterator list" where
  "locators_after ps it =
     map (\<lambda>s. \<lparr>page = page it, slot = s\<rparr>)
       (filter (\<lambda>s. fst (ps ! page it ! s)) [Suc (slot it)..<length (ps ! page it)]) @
     concat (map (page_locators ps) [Suc (page it)..<length ps])"

section \<open>Properties of the tuple codec\<close>

lemma compatible_loop_eq:
  "length (Tuple_fields t) = length (td_types td) \<Longrightarrow>
   compatible_loop td t i =
     Inr (\<forall>j. i \<le> j \<and> j < length (td_types td) \<longrightarrow> held_alternative (Tuple_fields t ! j) = td_types td ! j)"
proof (induction td t i rule: compatible_loop.induct)
  case (1 td t i)
  show ?case
  proof (cases "i < length (td_types td)")
    case False
    then show ?thesis by (subst compatible_loop.simps) auto
  next
    case True
    show ?thesis
    proof (cases "held_alternative (Tuple_fields t ! i) = td_types td ! i")
      case False
      with True 1(2) show ?thesis
        by (subst compatible_loop.simps) (auto simp: Tuple_field_type_def)
    next
      case eq: True
      have "compatible_loop td t i = compatible_loop td t (Suc i)"
        using True eq 1(2) by (subst compatible_loop.simps) (simp add: Tuple_field_type_def)
      also have "\<dots> = Inr (\<forall>j. Suc i \<le> j \<and> j < length (td_types td) \<longrightarrow>
                         held_alternative (Tuple_fields t ! j) = td_types td ! j)"
        using 1(1)[OF True _ _ 1(2)] True eq 1(2) by (simp add: Tuple_field_type_def)
      also have "(\<forall>j. Suc i \<le> j \<and> j < length (td_types td) \<longrightarrow>
                         held_alternative (Tuple_fields t ! j) = td_types td ! j)
              = (\<forall>j. i \<le> j \<and> j < length (td_types td) \<longrightarrow>
                         held_alternative (Tuple_fields t ! j) = td_types td ! j)"
        using eq by (metis Suc_leI le_neq_implies_less Suc_leD)
      finally show ?thesis .
    qed
  qed
qed

lemma compatible_eq:
  "TupleDesc_compatible td t = Inr (map held_alternative (Tuple_fields t) = td_types td)"
proof (cases "length (Tuple_fields t) = length (td_types td)")
  case False
  then show ?thesis by (auto simp: TupleDesc_compatible_def Tuple_size_def dest: arg_cong[where f=length])
next
  case True
  then show ?thesis
    by (auto simp: TupleDesc_compatible_def Tuple_size_def compatible_loop_eq list_eq_iff_nth_eq)
qed

lemma has_duplicate_eq:
  "has_duplicate seen ns = (\<not> distinct ns \<or> set ns \<inter> seen \<noteq> {})"
  by (induction ns arbitrary: seen) auto

lemma prefix_width_Suc:
  "i < length tys \<Longrightarrow> prefix_width tys (Suc i) = prefix_width tys i + size_of (tys ! i)"
  by (simp add: prefix_width_def take_Suc_conv_app_nth)

lemma layout_loop_inv:
  "i \<le> length tys \<Longrightarrow> length offs = length tys \<Longrightarrow> off = prefix_width tys i \<Longrightarrow>
   (\<forall>j < i. offs ! j = prefix_width tys j) \<Longrightarrow>
   layout_loop tys nms i off offs m = (offs', off', m') \<Longrightarrow>
   length offs' = length tys \<and> off' = prefix_width tys (length tys) \<and>
   (\<forall>j < length tys. offs' ! j = prefix_width tys j)"
proof (induction tys nms i off offs m rule: layout_loop.induct)
  case (1 tys nms i off offs m)
  show ?case
  proof (cases "i < length tys")
    case False
    with 1(2-) show ?thesis by (subst (asm) layout_loop.simps) auto
  next
    case True
    have step: "layout_loop tys nms (Suc i) (off + size_of (tys ! i)) (offs[i := off])
             (if m (nms ! i) = None then m(nms ! i \<mapsto> i) else m) = (offs', off', m')"
      using 1(6) True by (subst (asm) layout_loop.simps) simp
    have inv: "\<forall>j < Suc i. offs[i := off] ! j = prefix_width tys j"
      using 1(3,4,5) True by (auto simp: nth_list_update less_Suc_eq)
    show ?thesis
      by (rule 1(1)[OF True _ _ _ inv step])
         (use True 1(3,4) in \<open>auto simp: prefix_width_Suc\<close>)
  qed
qed

lemma TupleDesc_new_layout:
  assumes "TupleDesc_new tys nms = Inr td"
  shows "td_types td = tys" "td_names td = nms" "length tys = length nms" "distinct nms"
    "length (td_offsets td) = length tys"
    "td_length td = prefix_width tys (length tys)"
    "\<And>j. j < length tys \<Longrightarrow> td_offsets td ! j = prefix_width tys j"
proof -
  obtain offs off m where l: "layout_loop tys nms 0 0 (replicate (length tys) 0) Map.empty = (offs, off, m)"
    by (metis prod_cases3)
  from assms l have td: "td = \<lparr>td_types = tys, td_names = nms, td_offsets = offs, td_length = off,
                     td_name2idx = m\<rparr>" and a: "length tys = length nms" "\<not> has_duplicate {} nms"
    by (auto simp: TupleDesc_new_def split: if_splits)
  have inv: "length offs = length tys \<and> off = prefix_width tys (length tys) \<and>
   (\<forall>j < length tys. offs ! j = prefix_width tys j)"
    by (rule layout_loop_inv[OF _ _ _ _ l]) (simp_all add: prefix_width_def)
  show "td_types td = tys" "td_names td = nms" "length tys = length nms" "distinct nms"
    "length (td_offsets td) = length tys"
    "td_length td = prefix_width tys (length tys)"
    "\<And>j. j < length tys \<Longrightarrow> td_offsets td ! j = prefix_width tys j"
    using td a inv by (simp_all add: has_duplicate_eq)
qed

lemma TupleDesc_new_ok:
  "length tys = length nms \<Longrightarrow> distinct nms \<Longrightarrow> \<exists>td. TupleDesc_new tys nms = Inr td"
  by (auto simp: TupleDesc_new_def has_duplicate_eq split: prod.splits)

lemma length_object_bytes [simp]: "length (object_bytes n v) = n"
  by (induction n arbitrary: v) auto

lemma object_value_bytes: "object_value (object_bytes n v) = v mod 256 ^ n"
proof (induction n arbitrary: v)
  case 0
  then show ?case by simp
next
  case (Suc n)
  have "unat (of_nat (v mod 256) :: byte) = v mod 256"
    by (simp add: unat_of_nat)
  then show ?case
    by (simp add: Suc mod_mult2_eq)
qed

lemma length_field_bytes [simp]: "length (field_bytes f) = size_of (held_alternative f)"
  by (cases f) (auto simp: CHAR_SIZE_def)

lemma text_length_loop_eq:
  "CHAR_SIZE \<le> length csrc \<Longrightarrow> len \<le> CHAR_SIZE \<Longrightarrow> (\<forall>j < len. csrc ! j \<noteq> 0) \<Longrightarrow>
   text_length_loop csrc len = length (takeWhile (\<lambda>c. c \<noteq> 0) (take CHAR_SIZE csrc))"
proof (induction csrc len rule: text_length_loop.induct)
  case (1 csrc len)
  show ?case
  proof (cases "len < CHAR_SIZE \<and> csrc ! len \<noteq> 0")
    case True
    have "text_length_loop csrc len = text_length_loop csrc (Suc len)"
      using True by (subst text_length_loop.simps) simp
    also have "\<dots> = length (takeWhile (\<lambda>c. c \<noteq> 0) (take CHAR_SIZE csrc))"
      using True 1(2-) by (intro 1(1)) (auto simp: less_Suc_eq)
    finally show ?thesis .
  next
    case False
    have "takeWhile (\<lambda>c. c \<noteq> 0) (take CHAR_SIZE csrc) = take len (take CHAR_SIZE csrc)"
      using False 1(2-) by (intro takeWhile_eq_take_P_nth) auto
    moreover have "text_length_loop csrc len = len"
      using False by (subst text_length_loop.simps) auto
    ultimately show ?thesis using 1(2,3) by simp
  qed
qed

lemma take_text_length:
  "CHAR_SIZE \<le> length csrc \<Longrightarrow>
   take (text_length_loop csrc 0) csrc = takeWhile (\<lambda>c. c \<noteq> 0) (take CHAR_SIZE csrc)"
proof -
  assume a: "CHAR_SIZE \<le> length csrc"
  let ?w = "takeWhile (\<lambda>c. c \<noteq> 0) (take CHAR_SIZE csrc)"
  have "take (length ?w) csrc = take (length ?w) (take CHAR_SIZE csrc)"
    using length_takeWhile_le[of "\<lambda>c. c \<noteq> 0" "take CHAR_SIZE csrc"] a by (simp add: min_absorb1)
  also have "\<dots> = ?w"
    by (metis takeWhile_eq_take)
  finally show ?thesis using a by (simp add: text_length_loop_eq)
qed

lemma TupleDesc_new_layout_ok: "TupleDesc_new tys nms = Inr td \<Longrightarrow> layout_ok td"
  using TupleDesc_new_layout[of tys nms td] by (simp add: layout_ok_def)

lemma prefix_width_mono: "i \<le> j \<Longrightarrow> prefix_width tys i \<le> prefix_width tys j"
proof (induction j)
  case 0
  then show ?case by simp
next
  case (Suc j)
  show ?case
  proof (cases "i = Suc j")
    case True
    then show ?thesis by simp
  next
    case False
    with Suc have le: "prefix_width tys i \<le> prefix_width tys j" by simp
    show ?thesis
    proof (cases "j < length tys")
      case True
      then show ?thesis using le by (simp add: prefix_width_Suc)
    next
      case False
      then show ?thesis using le by (simp add: prefix_width_def)
    qed
  qed
qed

lemma field_end_le:
  "j < length tys \<Longrightarrow> prefix_width tys j + size_of (tys ! j) \<le> prefix_width tys (length tys)"
  using prefix_width_mono[of "Suc j" "length tys" tys] by (simp add: prefix_width_Suc)

lemma deserialize_loop_step:
  assumes "i < length (td_types td)" "td_offsets td ! i + size_of (td_types td ! i) \<le> length data"
  shows "deserialize_loop td data i out =
         deserialize_loop td data (Suc i)
           (out @ [decode_field (td_types td ! i) (drop (td_offsets td ! i) data)])"
proof (cases "td_types td ! i")
  case INT_T
  then show ?thesis using assms(1) by (subst deserialize_loop.simps) simp
next
  case DOUBLE_T
  then show ?thesis using assms(1) by (subst deserialize_loop.simps) simp
next
  case CHAR_T
  with assms(2) have "CHAR_SIZE \<le> length (drop (td_offsets td ! i) data)" by simp
  then show ?thesis using assms(1) CHAR_T
    by (subst deserialize_loop.simps) (simp add: take_text_length)
qed

lemma deserialize_loop_eq:
  assumes "layout_ok td" "td_length td \<le> length data"
  shows "deserialize_loop td data i out =
     Tuple (out @ map (\<lambda>j. decode_field (td_types td ! j) (drop (td_offsets td ! j) data))
                      [i..<length (td_types td)])"
proof (induction "length (td_types td) - i" arbitrary: i out)
  case 0
  then show ?case by (subst deserialize_loop.simps) simp
next
  case (Suc k)
  then have lt: "i < length (td_types td)" by simp
  have "td_offsets td ! i + size_of (td_types td ! i) \<le> length data"
    using assms lt field_end_le[of i "td_types td"] by (simp add: layout_ok_def)
  from deserialize_loop_step[OF lt this] Suc(1)[of "Suc i"] Suc(2) lt
  show ?case by (simp add: upt_conv_Cons)
qed

lemma deserialize_eq:
  assumes "layout_ok td" "td_length td \<le> length data"
  shows "TupleDesc_deserialize td data =
     Tuple (map (\<lambda>j. decode_field (td_types td ! j) (drop (td_offsets td ! j) data))
                      [0..<length (td_types td)])"
  using deserialize_loop_eq[OF assms, of 0 "[]"] by (simp add: TupleDesc_deserialize_def)

lemma length_memcpy_to:
  "off + length src \<le> length data \<Longrightarrow> length (memcpy_to data off src) = length data"
  by (simp add: memcpy_to_def)

lemma memcpy_to_append:
  "off + length a \<le> length data \<Longrightarrow>
   memcpy_to (memcpy_to data off a) (off + length a) b = memcpy_to data off (a @ b)"
  by (simp add: memcpy_to_def ac_simps)

lemma serialize_loop_step:
  assumes i: "i < length (td_types td)" and len: "length (Tuple_fields t) = length (td_types td)"
    and ty: "held_alternative (Tuple_fields t ! i) = td_types td ! i"
    and fit: "td_offsets td ! i + size_of (td_types td ! i) \<le> length data"
  shows "serialize_loop td t i data =
         serialize_loop td t (Suc i) (memcpy_to data (td_offsets td ! i) (field_bytes (Tuple_fields t ! i)))"
proof (cases "Tuple_fields t ! i")
  case (IntF v)
  then show ?thesis using i len ty
    by (subst serialize_loop.simps) (auto simp: Tuple_get_field_def)
next
  case (DoubleF v)
  then show ?thesis using i len ty
    by (subst serialize_loop.simps) (auto simp: Tuple_get_field_def)
next
  case (StringF s)
  with ty have c: "td_types td ! i = CHAR_T" by simp
  let ?off = "td_offsets td ! i"
  let ?n = "if length s > CHAR_SIZE then CHAR_SIZE else length s"
  let ?d1 = "memcpy_to data ?off (take ?n s)"
  let ?d2 = "if ?n < CHAR_SIZE then memcpy_to ?d1 (?off + ?n) (replicate (CHAR_SIZE - ?n) 0) else ?d1"
  have unf: "serialize_loop td t i data = serialize_loop td t (Suc i) ?d2"
    using i len c StringF
    by (subst serialize_loop.simps) (simp add: Tuple_get_field_def Let_def)
  have "?d2 = memcpy_to data ?off (field_bytes (StringF s))"
  proof (cases "length s < CHAR_SIZE")
    case True
    then have n: "?n = length s" by simp
    have "memcpy_to (memcpy_to data ?off s) (?off + length s) (replicate (CHAR_SIZE - length s) 0)
          = memcpy_to data ?off (s @ replicate (CHAR_SIZE - length s) 0)"
      using fit c True by (intro memcpy_to_append) simp
    then show ?thesis using True by (simp add: n)
  next
    case False
    then show ?thesis by auto
  qed
  with unf StringF show ?thesis by simp
qed

lemma serialize_loop_eq:
  assumes lay: "layout_ok td" and fit: "td_length td \<le> length data"
    and comp: "map held_alternative (Tuple_fields t) = td_types td"
  shows "i \<le> length (td_types td) \<Longrightarrow> length d = length data \<Longrightarrow>
         take (prefix_width (td_types td) i) d = concat (map field_bytes (take i (Tuple_fields t))) \<Longrightarrow>
         drop (prefix_width (td_types td) i) d = drop (prefix_width (td_types td) i) data \<Longrightarrow>
         serialize_loop td t i d =
           (Inr (), concat (map field_bytes (Tuple_fields t)) @ drop (td_length td) data)"
proof (induction "length (td_types td) - i" arbitrary: i d)
  case 0
  then have i: "i = length (td_types td)" by simp
  have len: "length (Tuple_fields t) = length (td_types td)"
    using comp by (metis length_map)
  have "d = take (prefix_width (td_types td) i) d @ drop (prefix_width (td_types td) i) d"
    by simp
  also have "\<dots> = concat (map field_bytes (Tuple_fields t)) @ drop (td_length td) data"
    using 0(4,5) i len lay by (simp add: layout_ok_def)
  finally have "d = concat (map field_bytes (Tuple_fields t)) @ drop (td_length td) data" .
  moreover have "serialize_loop td t i d = (Inr (), d)"
    using i by (subst serialize_loop.simps) simp
  ultimately show ?case by simp
next
  case (Suc k)
  let ?tys = "td_types td"
  let ?pw = "prefix_width ?tys"
  from Suc(2) have lt: "i < length ?tys" by simp
  have len: "length (Tuple_fields t) = length ?tys"
    using comp by (metis length_map)
  have ty: "held_alternative (Tuple_fields t ! i) = ?tys ! i"
    using comp lt len by (metis nth_map)
  have off: "td_offsets td ! i = ?pw i"
    using lay lt by (simp add: layout_ok_def)
  have pwS: "?pw (Suc i) = ?pw i + size_of (?tys ! i)"
    using lt by (rule prefix_width_Suc)
  have bound: "?pw (Suc i) \<le> length data"
    using field_end_le[OF lt] lay fit pwS by (simp add: layout_ok_def)
  let ?fb = "field_bytes (Tuple_fields t ! i)"
  let ?d' = "memcpy_to d (?pw i) ?fb"
  have lfb: "length ?fb = size_of (?tys ! i)" using ty by simp
  have step: "serialize_loop td t i d = serialize_loop td t (Suc i) ?d'"
    using serialize_loop_step[OF lt len ty, of d] bound pwS Suc(4) off by simp
  have d'_eq: "?d' = take (?pw i) d @ ?fb @ drop (?pw (Suc i)) d"
    by (simp add: memcpy_to_def ty pwS)
  have ltk: "length (take (?pw i) d) = ?pw i"
    using bound pwS Suc(4) by simp
  have l': "length ?d' = length data"
    using bound pwS Suc(4) lfb by (simp add: length_memcpy_to)
  have t': "take (?pw (Suc i)) ?d' = concat (map field_bytes (take (Suc i) (Tuple_fields t)))"
    using lt len Suc(5) ltk lfb
    by (simp add: d'_eq pwS take_Suc_conv_app_nth)
  have "drop (?pw (Suc i)) ?d' = drop (?pw (Suc i)) d"
    using ltk lfb by (simp add: d'_eq pwS)
  also have "\<dots> = drop (size_of (?tys ! i)) (drop (?pw i) d)"
    by (simp add: pwS add.commute)
  also have "\<dots> = drop (?pw (Suc i)) data"
    by (simp add: Suc(6) pwS add.commute)
  finally have dr': "drop (?pw (Suc i)) ?d' = drop (?pw (Suc i)) data" .
  have "serialize_loop td t (Suc i) ?d' =
           (Inr (), concat (map field_bytes (Tuple_fields t)) @ drop (td_length td) data)"
    by (rule Suc(1)[OF _ _ l' t' dr']) (use Suc(2) lt in auto)
  with step show ?case by simp
qed

lemma serialize_eq:
  assumes "layout_ok td" "td_length td \<le> length data"
    "map held_alternative (Tuple_fields t) = td_types td"
  shows "TupleDesc_serialize td data t =
           (Inr (), concat (map field_bytes (Tuple_fields t)) @ drop (td_length td) data)"
  using serialize_loop_eq[OF assms, of 0 data] assms(3)
  by (simp add: TupleDesc_serialize_def compatible_eq prefix_width_def)

lemma takeWhile_padded:
  "takeWhile (\<lambda>c. c \<noteq> (0::byte)) (xs @ replicate k 0) = takeWhile (\<lambda>c. c \<noteq> 0) xs"
proof (cases "\<exists>x \<in> set xs. x = 0")
  case True
  then show ?thesis by (auto simp: takeWhile_append1)
next
  case False
  then have "takeWhile (\<lambda>c. c \<noteq> (0::byte)) (xs @ replicate k 0) = xs @ takeWhile (\<lambda>c. c \<noteq> 0) (replicate k 0)"
    by (intro takeWhile_append2) auto
  moreover have "takeWhile (\<lambda>c. c \<noteq> (0::byte)) (replicate k 0) = []"
    by (cases k) auto
  moreover have "takeWhile (\<lambda>c. c \<noteq> (0::byte)) xs = xs"
    using False by (auto simp: takeWhile_eq_all_conv)
  ultimately show ?thesis by (simp only: append_Nil2)
qed

lemma decode_field_bytes:
  "decode_field (held_alternative f) (field_bytes f @ rest) = stored_field f"
proof (cases f)
  case (IntF v)
  have "unat v < 256 ^ INT_SIZE"
    using unsigned_less[of v] by (simp add: INT_SIZE_def)
  then show ?thesis using IntF by (simp add: object_value_bytes)
next
  case (DoubleF v)
  have "unat v < 256 ^ DOUBLE_SIZE"
    using unsigned_less[of v] by (simp add: DOUBLE_SIZE_def)
  then show ?thesis using DoubleF by (simp add: object_value_bytes)
next
  case (StringF s)
  have "take CHAR_SIZE (field_bytes f @ rest) = field_bytes f"
    using length_field_bytes[of f] StringF by simp
  then show ?thesis using StringF by (simp add: takeWhile_padded del: length_field_bytes)
qed

lemma prefix_width_fields:
  "prefix_width (map held_alternative fs) j = length (concat (map field_bytes (take j fs)))"
  by (simp add: prefix_width_def length_concat take_map comp_def)

lemma drop_concat_nth:
  "j < length xss \<Longrightarrow>
   drop (length (concat (take j xss))) (concat xss @ rest) =
     xss ! j @ (concat (drop (Suc j) xss) @ rest)"
proof -
  assume j: "j < length xss"
  have "concat xss = concat (take j xss) @ xss ! j @ concat (drop (Suc j) xss)"
    using j by (metis append_take_drop_id concat_append Cons_nth_drop_Suc concat.simps(2))
  then have "concat xss @ rest = concat (take j xss) @ (xss ! j @ concat (drop (Suc j) xss) @ rest)"
    by simp
  then show ?thesis by (simp only: drop_append length_append drop_all) simp
qed

lemma roundtrip:
  assumes lay: "layout_ok td" and fit: "td_length td \<le> length data"
    and comp: "map held_alternative (Tuple_fields t) = td_types td"
  shows "TupleDesc_deserialize td (snd (TupleDesc_serialize td data t)) =
           Tuple (map stored_field (Tuple_fields t))"
proof -
  let ?fs = "Tuple_fields t"
  let ?buf = "concat (map field_bytes ?fs) @ drop (td_length td) data"
  have len: "length ?fs = length (td_types td)" using comp by (metis length_map)
  have tl: "td_length td = length (concat (map field_bytes ?fs))"
    using lay comp len prefix_width_fields[of ?fs "length ?fs"] by (simp add: layout_ok_def)
  have lbuf: "length ?buf = length data" using fit tl by simp
  have ser: "snd (TupleDesc_serialize td data t) = ?buf"
    by (simp add: serialize_eq[OF assms])
  have "TupleDesc_deserialize td ?buf =
     Tuple (map (\<lambda>j. decode_field (td_types td ! j) (drop (td_offsets td ! j) ?buf))
                      [0..<length (td_types td)])"
    using lay fit lbuf by (intro deserialize_eq) simp_all
  also have "map (\<lambda>j. decode_field (td_types td ! j) (drop (td_offsets td ! j) ?buf))
                      [0..<length (td_types td)] = map stored_field ?fs"
  proof (rule nth_equalityI)
    show "length (map (\<lambda>j. decode_field (td_types td ! j) (drop (td_offsets td ! j) ?buf))
                      [0..<length (td_types td)]) = length (map stored_field ?fs)"
      using len by simp
  next
    fix j assume "j < length (map (\<lambda>j. decode_field (td_types td ! j) (drop (td_offsets td ! j) ?buf))
                      [0..<length (td_types td)])"
    then have j: "j < length ?fs" using len by simp
    have off: "td_offsets td ! j = length (concat (take j (map field_bytes ?fs)))"
      using lay j len comp prefix_width_fields[of ?fs j] by (simp add: layout_ok_def take_map)
    have ty: "td_types td ! j = held_alternative (?fs ! j)"
      using comp j by (metis nth_map)
    have "drop (td_offsets td ! j) ?buf =
            field_bytes (?fs ! j) @ (concat (drop (Suc j) (map field_bytes ?fs)) @ drop (td_length td) data)"
      unfolding off using drop_concat_nth[of j "map field_bytes ?fs" "drop (td_length td) data"] j
      by simp
    then show "map (\<lambda>j. decode_field (td_types td ! j) (drop (td_offsets td ! j) ?buf))
                      [0..<length (td_types td)] ! j = map stored_field ?fs ! j"
      using j len ty by (simp add: decode_field_bytes)
  qed
  finally show ?thesis using ser by simp
qed

lemma example_schema_new:
  "TupleDesc_new [INT_T, CHAR_T] [''id'', ''name''] = Inr example_schema"
  by (simp add: TupleDesc_new_def layout_loop.simps example_schema_def INT_SIZE_def CHAR_SIZE_def)

lemma score_schema_new: "TupleDesc_new [DOUBLE_T] [''score''] = Inr score_schema"
  by (simp add: TupleDesc_new_def layout_loop.simps score_schema_def DOUBLE_SIZE_def)

lemma TupleDesc_new_default: "TupleDesc_new [] [] = Inr TupleDesc_default"
  by (simp add: TupleDesc_new_def layout_loop.simps TupleDesc_default_def)

lemma compatible_example:
  "TupleDesc_compatible example_schema (Tuple [IntF 1, StringF [97, 0, 98]]) = Inr True"
  by (simp add: compatible_eq example_schema_def)

text \<open>Claim C6. For a schema built by the constructor, the width of a field depends on its
  type alone (INT 4, DOUBLE 8, CHAR 64), \<^verbatim>\<open>offset_of(i)\<close> returns the sum of the widths of
  the fields before \<open>i\<close>, and \<^verbatim>\<open>length()\<close> is the sum of all widths.\<close>

theorem TupleDesc_layout:
  assumes "TupleDesc_new tys nms = Inr td"
  shows "size_of INT_T = 4 \<and> size_of DOUBLE_T = 8 \<and> size_of CHAR_T = 64 \<and>
         (\<forall>i < TupleDesc_size td.
            TupleDesc_offset_of td i = Inr (sum_list (map size_of (take i (td_types td))))) \<and>
         TupleDesc_length td = sum_list (map size_of (td_types td))"
  using TupleDesc_new_layout[OF assms]
  by (simp add: INT_SIZE_def DOUBLE_SIZE_def CHAR_SIZE_def TupleDesc_size_def
      TupleDesc_offset_of_def TupleDesc_length_def prefix_width_def)

theorem TupleDesc_layout_witness:
  "TupleDesc_offset_of example_schema 0 = Inr 0 \<and> TupleDesc_offset_of example_schema 1 = Inr 4 \<and>
   TupleDesc_length example_schema = 68"
  using TupleDesc_layout[OF example_schema_new]
  by (simp add: example_schema_def TupleDesc_size_def INT_SIZE_def CHAR_SIZE_def)

lemma held_decode_field: "held_alternative (decode_field ty ptr) = ty"
  by (cases ty) simp_all

lemma decode_field_text:
  "decode_field ty ptr = StringF s \<Longrightarrow> length s \<le> CHAR_SIZE \<and> 0 \<notin> set s"
proof (cases ty)
  case CHAR_T
  assume "decode_field ty ptr = StringF s"
  with CHAR_T have s: "s = takeWhile (\<lambda>c. c \<noteq> 0) (take CHAR_SIZE ptr)" by simp
  have "length s \<le> length (take CHAR_SIZE ptr)"
    unfolding s by (rule length_takeWhile_le)
  moreover have "0 \<notin> set s"
    unfolding s using set_takeWhileD by fastforce
  ultimately show ?thesis by simp
qed simp_all

text \<open>Claim C4. For a schema built by the constructor and a buffer of at least \<^verbatim>\<open>length()\<close>
  bytes: \<^verbatim>\<open>compatible\<close> never throws, and returns true exactly when the field counts agree and
  every field holds the declared type at its position; \<^verbatim>\<open>serialize\<close> succeeds exactly when
  \<^verbatim>\<open>compatible\<close> is true; when it is false \<^verbatim>\<open>serialize\<close> throws and the buffer is the one
  it was given, no byte written.\<close>

theorem serialize_iff_compatible:
  assumes "TupleDesc_new tys nms = Inr td" and "TupleDesc_length td \<le> length data"
  shows "TupleDesc_compatible td t =
           Inr (Tuple_size t = TupleDesc_size td \<and>
                (\<forall>i < TupleDesc_size td. Tuple_field_type t i = Inr (td_types td ! i))) \<and>
         (fst (TupleDesc_serialize td data t) = Inr () \<longleftrightarrow>
            TupleDesc_compatible td t = Inr True) \<and>
         (TupleDesc_compatible td t = Inr False \<longrightarrow>
            TupleDesc_serialize td data t = (Inl LogicError, data))"
proof -
  have c: "TupleDesc_compatible td t =
           Inr (Tuple_size t = TupleDesc_size td \<and>
                (\<forall>i < TupleDesc_size td. Tuple_field_type t i = Inr (td_types td ! i)))"
    by (auto simp: compatible_eq Tuple_size_def TupleDesc_size_def Tuple_field_type_def
        list_eq_iff_nth_eq)
  have ok: "TupleDesc_compatible td t = Inr True \<Longrightarrow> fst (TupleDesc_serialize td data t) = Inr ()"
    using serialize_eq[OF TupleDesc_new_layout_ok[OF assms(1)], of data t] assms(2)
    by (simp add: compatible_eq TupleDesc_length_def)
  have bad: "TupleDesc_compatible td t = Inr False \<Longrightarrow>
            TupleDesc_serialize td data t = (Inl LogicError, data)"
    by (simp add: TupleDesc_serialize_def)
  have "fst (TupleDesc_serialize td data t) = Inr () \<Longrightarrow> TupleDesc_compatible td t = Inr True"
    using bad by (cases "map held_alternative (Tuple_fields t) = td_types td")
      (simp_all add: compatible_eq)
  with c ok bad show ?thesis by blast
qed

theorem serialize_iff_compatible_witness:
  "fst (TupleDesc_serialize example_schema (replicate 68 0) (Tuple [IntF 1, StringF [97, 0, 98]]))
     = Inr () \<and>
   TupleDesc_serialize example_schema (replicate 68 0) (Tuple [StringF [97], IntF 1])
     = (Inl LogicError, replicate 68 0)"
proof -
  have len: "TupleDesc_length example_schema \<le> length (replicate 68 (0::byte))"
    by (simp add: TupleDesc_length_def example_schema_def)
  have bad: "TupleDesc_compatible example_schema (Tuple [StringF [97], IntF 1]) = Inr False"
    by (simp add: compatible_eq example_schema_def)
  show ?thesis
    using serialize_iff_compatible[OF example_schema_new len, of "Tuple [IntF 1, StringF [97, 0, 98]]"]
      serialize_iff_compatible[OF example_schema_new len, of "Tuple [StringF [97], IntF 1]"]
      compatible_example bad
    by simp
qed

text \<open>Claim C10. For a schema built by the constructor and a buffer of at least \<^verbatim>\<open>length()\<close>
  bytes, \<^verbatim>\<open>deserialize\<close> returns a tuple that is compatible with the schema: it has the
  schema's number of fields, each field holds the declared type of its position, and every
  decoded text has at most 64 bytes, none of them zero. (\<^verbatim>\<open>deserialize\<close> has no failing
  branch and its loops terminate, so it returns on every input.)\<close>

theorem deserialize_compatible:
  assumes "TupleDesc_new tys nms = Inr td" and "TupleDesc_length td \<le> length data"
  shows "TupleDesc_compatible td (TupleDesc_deserialize td data) = Inr True \<and>
         Tuple_size (TupleDesc_deserialize td data) = TupleDesc_size td \<and>
         (\<forall>i < TupleDesc_size td.
            Tuple_field_type (TupleDesc_deserialize td data) i = Inr (td_types td ! i)) \<and>
         (\<forall>s. StringF s \<in> set (Tuple_fields (TupleDesc_deserialize td data)) \<longrightarrow>
            length s \<le> CHAR_SIZE \<and> 0 \<notin> set s)"
proof -
  let ?fs = "map (\<lambda>j. decode_field (td_types td ! j) (drop (td_offsets td ! j) data))
                      [0..<length (td_types td)]"
  have d: "TupleDesc_deserialize td data = Tuple ?fs"
    using deserialize_eq[OF TupleDesc_new_layout_ok[OF assms(1)]] assms(2)
    by (simp add: TupleDesc_length_def)
  have tags: "map held_alternative ?fs = td_types td"
    by (simp add: comp_def held_decode_field map_nth)
  have c: "TupleDesc_compatible td (TupleDesc_deserialize td data) = Inr True"
    unfolding d using tags by (simp add: compatible_eq)
  have sz: "Tuple_size (TupleDesc_deserialize td data) = TupleDesc_size td"
    unfolding d by (simp add: Tuple_size_def TupleDesc_size_def)
  have ft: "\<forall>i < TupleDesc_size td.
            Tuple_field_type (TupleDesc_deserialize td data) i = Inr (td_types td ! i)"
    unfolding d by (simp add: Tuple_field_type_def TupleDesc_size_def held_decode_field)
  have tx: "\<forall>s. StringF s \<in> set (Tuple_fields (TupleDesc_deserialize td data)) \<longrightarrow>
            length s \<le> CHAR_SIZE \<and> 0 \<notin> set s"
    unfolding d using decode_field_text by auto
  from c sz ft tx show ?thesis by blast
qed

theorem deserialize_compatible_witness:
  "TupleDesc_compatible example_schema
     (TupleDesc_deserialize example_schema (replicate 68 7)) = Inr True \<and>
   Tuple_size (TupleDesc_deserialize example_schema (replicate 68 7)) = 2"
proof -
  have len: "TupleDesc_length example_schema \<le> length (replicate 68 (7::byte))"
    by (simp add: TupleDesc_length_def example_schema_def)
  show ?thesis
    using deserialize_compatible[OF example_schema_new len]
    by (simp add: TupleDesc_size_def example_schema_def)
qed

lemma TupleDesc_new_fails:
  "length tys \<noteq> length nms \<or> \<not> distinct nms \<Longrightarrow> TupleDesc_new tys nms = Inl LogicError"
  by (auto simp: TupleDesc_new_def has_duplicate_eq)

lemma TupleDesc_new_result:
  "length tys = length nms \<Longrightarrow> distinct nms \<Longrightarrow>
   \<exists>td. TupleDesc_new tys nms = Inr td \<and> td_types td = tys \<and> td_names td = nms"
  using TupleDesc_new_ok[of tys nms] TupleDesc_new_layout(1,2)[of tys nms] by blast

lemma merge_unfold:
  assumes "TupleDesc_new tys1 nms1 = Inr td1" "TupleDesc_new tys2 nms2 = Inr td2"
  shows "TupleDesc_merge td1 td2 =
           TupleDesc_new (td_types td1 @ td_types td2) (td_names td1 @ td_names td2)"
proof -
  have l1: "length (td_names td1) = length (td_types td1)"
    using TupleDesc_new_layout(1,2,3)[OF assms(1)] by simp
  have l2: "length (td_names td2) = length (td_types td2)"
    using TupleDesc_new_layout(1,2,3)[OF assms(2)] by simp
  have "map (\<lambda>i. td_names td1 ! i) [0..<length (td_types td1)] = td_names td1"
    using map_nth[of "td_names td1"] l1 by simp
  moreover have "map (\<lambda>i. td_names td2 ! i) [0..<length (td_types td2)] = td_names td2"
    using map_nth[of "td_names td2"] l2 by simp
  ultimately show ?thesis
    by (simp add: TupleDesc_merge_def TupleDesc_size_def map_nth)
qed

text \<open>Claim C5. The constructor fails when the two lists differ in length or a name repeats;
  \<^verbatim>\<open>merge\<close> of two constructed schemas fails when they share a name; when their names are
  disjoint it succeeds, and the merged schema has the fields of the first schema followed by
  the fields of the second, so its size is the sum of the two sizes.\<close>

theorem TupleDesc_unique_names:
  "(length tys \<noteq> length nms \<or> \<not> distinct nms \<longrightarrow> TupleDesc_new tys nms = Inl LogicError) \<and>
   (TupleDesc_new tys1 nms1 = Inr td1 \<and> TupleDesc_new tys2 nms2 = Inr td2 \<longrightarrow>
      (set (td_names td1) \<inter> set (td_names td2) \<noteq> {} \<longrightarrow>
         TupleDesc_merge td1 td2 = Inl LogicError) \<and>
      (set (td_names td1) \<inter> set (td_names td2) = {} \<longrightarrow>
         (\<exists>td. TupleDesc_merge td1 td2 = Inr td \<and>
               TupleDesc_size td = TupleDesc_size td1 + TupleDesc_size td2 \<and>
               td_types td = td_types td1 @ td_types td2 \<and>
               td_names td = td_names td1 @ td_names td2)))"
proof (intro conjI impI)
  assume "length tys \<noteq> length nms \<or> \<not> distinct nms"
  then show "TupleDesc_new tys nms = Inl LogicError" by (rule TupleDesc_new_fails)
next
  assume v: "TupleDesc_new tys1 nms1 = Inr td1 \<and> TupleDesc_new tys2 nms2 = Inr td2"
    and c: "set (td_names td1) \<inter> set (td_names td2) \<noteq> {}"
  from c have "\<not> distinct (td_names td1 @ td_names td2)" by simp
  then show "TupleDesc_merge td1 td2 = Inl LogicError"
    using v by (simp add: merge_unfold[of tys1 nms1 td1 tys2 nms2 td2] TupleDesc_new_fails)
next
  assume v: "TupleDesc_new tys1 nms1 = Inr td1 \<and> TupleDesc_new tys2 nms2 = Inr td2"
    and c: "set (td_names td1) \<inter> set (td_names td2) = {}"
  have d: "distinct (td_names td1 @ td_names td2)"
    using c v TupleDesc_new_layout(2,4)[of tys1 nms1 td1] TupleDesc_new_layout(2,4)[of tys2 nms2 td2]
    by simp
  have l: "length (td_types td1 @ td_types td2) = length (td_names td1 @ td_names td2)"
    using v TupleDesc_new_layout(1,2,3)[of tys1 nms1 td1] TupleDesc_new_layout(1,2,3)[of tys2 nms2 td2]
    by simp
  from TupleDesc_new_result[OF l d] obtain td where
    "TupleDesc_new (td_types td1 @ td_types td2) (td_names td1 @ td_names td2) = Inr td"
    "td_types td = td_types td1 @ td_types td2" "td_names td = td_names td1 @ td_names td2"
    by blast
  then show "\<exists>td. TupleDesc_merge td1 td2 = Inr td \<and>
               TupleDesc_size td = TupleDesc_size td1 + TupleDesc_size td2 \<and>
               td_types td = td_types td1 @ td_types td2 \<and>
               td_names td = td_names td1 @ td_names td2"
    using v by (auto simp: merge_unfold[of tys1 nms1 td1 tys2 nms2 td2] TupleDesc_size_def)
qed

lemma example_schema_sel:
  "td_types example_schema = [INT_T, CHAR_T]" "td_names example_schema = [''id'', ''name'']"
  "TupleDesc_size example_schema = 2" "TupleDesc_length example_schema = 68"
  by (simp_all add: example_schema_def TupleDesc_size_def TupleDesc_length_def)

lemma score_schema_sel:
  "td_types score_schema = [DOUBLE_T]" "td_names score_schema = [''score'']"
  "TupleDesc_size score_schema = 1" "TupleDesc_length score_schema = 8"
  by (simp_all add: score_schema_def TupleDesc_size_def TupleDesc_length_def)

theorem TupleDesc_unique_names_witness:
  "TupleDesc_new [INT_T] [''a'', ''b''] = Inl LogicError \<and>
   TupleDesc_new [INT_T, INT_T] [''a'', ''a''] = Inl LogicError \<and>
   TupleDesc_merge example_schema example_schema = Inl LogicError \<and>
   (\<exists>td. TupleDesc_merge example_schema score_schema = Inr td \<and> TupleDesc_size td = 2 + 1 \<and>
         td_types td = [INT_T, CHAR_T, DOUBLE_T] \<and> td_names td = [''id'', ''name'', ''score''])"
proof -
  have a: "TupleDesc_new [INT_T] [''a'', ''b''] = Inl LogicError"
    using TupleDesc_unique_names[of "[INT_T]" "[''a'', ''b'']"] by simp
  have b: "TupleDesc_new [INT_T, INT_T] [''a'', ''a''] = Inl LogicError"
    using TupleDesc_unique_names[of "[INT_T, INT_T]" "[''a'', ''a'']"] by simp
  have c: "TupleDesc_merge example_schema example_schema = Inl LogicError"
    using TupleDesc_unique_names[of _ _ "[INT_T, CHAR_T]" "[''id'', ''name'']" example_schema
          "[INT_T, CHAR_T]" "[''id'', ''name'']" example_schema] example_schema_new
    by (simp add: example_schema_sel)
  have d: "\<exists>td. TupleDesc_merge example_schema score_schema = Inr td \<and>
         TupleDesc_size td = 2 + 1 \<and>
         td_types td = [INT_T, CHAR_T, DOUBLE_T] \<and> td_names td = [''id'', ''name'', ''score'']"
    using TupleDesc_unique_names[of _ _ "[INT_T, CHAR_T]" "[''id'', ''name'']" example_schema
          "[DOUBLE_T]" "[''score'']" score_schema] example_schema_new score_schema_new
    by (simp add: example_schema_sel score_schema_sel)
  from a b c d show ?thesis by blast
qed

lemma stored_text_eq_iff:
  "takeWhile (\<lambda>c. c \<noteq> (0::byte)) (take n s) = s \<longleftrightarrow> length s \<le> n \<and> 0 \<notin> set s"
proof
  assume e: "takeWhile (\<lambda>c. c \<noteq> (0::byte)) (take n s) = s"
  have "length (takeWhile (\<lambda>c. c \<noteq> (0::byte)) (take n s)) \<le> length (take n s)"
    by (rule length_takeWhile_le)
  with e have l: "length s \<le> n" by simp
  have "0 \<notin> set (takeWhile (\<lambda>c. c \<noteq> (0::byte)) (take n s))"
    using set_takeWhileD by fastforce
  then have "0 \<notin> set s" unfolding e .
  with l show "length s \<le> n \<and> 0 \<notin> set s" by blast
next
  assume "length s \<le> n \<and> 0 \<notin> set s"
  then show "takeWhile (\<lambda>c. c \<noteq> (0::byte)) (take n s) = s"
    by (auto simp: takeWhile_eq_all_conv)
qed

lemma stored_text_no_zero:
  "0 \<notin> set (take n s) \<Longrightarrow> takeWhile (\<lambda>c. c \<noteq> (0::byte)) (take n s) = take n s"
  by (auto simp: takeWhile_eq_all_conv)

text \<open>Claim C3, as amended. For a schema built by the constructor, a buffer of at least
  \<^verbatim>\<open>length()\<close> bytes and a compatible record, \<^verbatim>\<open>serialize\<close> succeeds and \<^verbatim>\<open>deserialize\<close> of
  the written buffer returns a record of the same number of fields in which every int and
  double field is the original one, and every text field is the original text cut to its
  first 64 bytes and then cut before the first zero byte. It is the 64-byte truncation when
  no zero byte occurs among the first 64 bytes, and it is the original text exactly when that
  text has at most 64 bytes and no zero byte.\<close>

theorem serialize_deserialize_roundtrip:
  assumes "TupleDesc_new tys nms = Inr td" and "TupleDesc_length td \<le> length data"
    and "TupleDesc_compatible td t = Inr True"
  shows "\<exists>data' fs'.
           TupleDesc_serialize td data t = (Inr (), data') \<and>
           TupleDesc_deserialize td data' = Tuple fs' \<and>
           length fs' = length (Tuple_fields t) \<and>
           (\<forall>i < length fs'.
              case Tuple_fields t ! i of
                IntF v \<Rightarrow> fs' ! i = IntF v
              | DoubleF v \<Rightarrow> fs' ! i = DoubleF v
              | StringF s \<Rightarrow>
                  fs' ! i = StringF (takeWhile (\<lambda>c. c \<noteq> 0) (take CHAR_SIZE s)) \<and>
                  (0 \<notin> set (take CHAR_SIZE s) \<longrightarrow> fs' ! i = StringF (take CHAR_SIZE s)) \<and>
                  (fs' ! i = StringF s \<longleftrightarrow> length s \<le> CHAR_SIZE \<and> 0 \<notin> set s))"
proof -
  have lay: "layout_ok td" by (rule TupleDesc_new_layout_ok[OF assms(1)])
  have fit: "td_length td \<le> length data" using assms(2) by (simp add: TupleDesc_length_def)
  have comp: "map held_alternative (Tuple_fields t) = td_types td"
    using assms(3) by (simp add: compatible_eq)
  let ?data' = "snd (TupleDesc_serialize td data t)"
  let ?fs' = "map stored_field (Tuple_fields t)"
  have 1: "TupleDesc_serialize td data t = (Inr (), ?data')"
    by (simp add: serialize_eq[OF lay fit comp])
  have 2: "TupleDesc_deserialize td ?data' = Tuple ?fs'"
    by (rule roundtrip[OF lay fit comp])
  have 3: "\<forall>i < length ?fs'.
              case Tuple_fields t ! i of
                IntF v \<Rightarrow> ?fs' ! i = IntF v
              | DoubleF v \<Rightarrow> ?fs' ! i = DoubleF v
              | StringF s \<Rightarrow>
                  ?fs' ! i = StringF (takeWhile (\<lambda>c. c \<noteq> 0) (take CHAR_SIZE s)) \<and>
                  (0 \<notin> set (take CHAR_SIZE s) \<longrightarrow> ?fs' ! i = StringF (take CHAR_SIZE s)) \<and>
                  (?fs' ! i = StringF s \<longleftrightarrow> length s \<le> CHAR_SIZE \<and> 0 \<notin> set s)"
    by (auto split: field_t.splits simp: stored_text_eq_iff stored_text_no_zero
        simp del: takeWhile_eq_all_conv)
  from 1 2 3 show ?thesis
    by (intro exI[of _ ?data'] exI[of _ ?fs']) simp
qed

theorem serialize_deserialize_roundtrip_witness:
  "\<exists>data' fs'.
     TupleDesc_serialize example_schema (replicate 68 0) (Tuple [IntF 1, StringF [97, 0, 98]])
       = (Inr (), data') \<and>
     TupleDesc_deserialize example_schema data' = Tuple fs' \<and>
     length fs' = 2 \<and> fs' ! 0 = IntF 1 \<and> fs' ! 1 = StringF [97]"
proof -
  have len: "TupleDesc_length example_schema \<le> length (replicate 68 (0::byte))"
    by (simp add: example_schema_sel)
  from serialize_deserialize_roundtrip[OF example_schema_new len compatible_example]
  obtain data' fs' where
    s: "TupleDesc_serialize example_schema (replicate 68 0) (Tuple [IntF 1, StringF [97, 0, 98]])
         = (Inr (), data')"
    and d: "TupleDesc_deserialize example_schema data' = Tuple fs'"
    and l: "length fs' = length (Tuple_fields (Tuple [IntF 1, StringF [97, 0, 98]]))"
    and f: "\<forall>i < length fs'.
              case Tuple_fields (Tuple [IntF 1, StringF [97, 0, 98]]) ! i of
                IntF v \<Rightarrow> fs' ! i = IntF v
              | DoubleF v \<Rightarrow> fs' ! i = DoubleF v
              | StringF s \<Rightarrow>
                  fs' ! i = StringF (takeWhile (\<lambda>c. c \<noteq> 0) (take CHAR_SIZE s)) \<and>
                  (0 \<notin> set (take CHAR_SIZE s) \<longrightarrow> fs' ! i = StringF (take CHAR_SIZE s)) \<and>
                  (fs' ! i = StringF s \<longleftrightarrow> length s \<le> CHAR_SIZE \<and> 0 \<notin> set s)"
    by blast
  from l have l2: "length fs' = 2" by simp
  from f l2 have "fs' ! 0 = IntF 1" by (auto dest: spec[of _ 0])
  moreover from f l2 have "fs' ! 1 = StringF [97]"
    by (auto dest!: spec[of _ 1] simp: CHAR_SIZE_def)
  ultimately show ?thesis using s d l2 by blast
qed

text \<open>The statement of C3 without the cut at the first zero byte fails: the text
  \<open>a\<close>, zero, \<open>b\<close> has three bytes and comes back as \<open>a\<close>.\<close>

theorem roundtrip_text_counterexample:
  "TupleDesc_new [INT_T, CHAR_T] [''id'', ''name''] = Inr example_schema \<and>
   TupleDesc_compatible example_schema (Tuple [IntF 1, StringF [97, 0, 98]]) = Inr True \<and>
   TupleDesc_deserialize example_schema
     (snd (TupleDesc_serialize example_schema (replicate 68 0)
             (Tuple [IntF 1, StringF [97, 0, 98]])))
     = Tuple [IntF 1, StringF [97]] \<and>
   StringF [97] \<noteq> StringF (take CHAR_SIZE [97, 0, 98])"
proof -
  have "map held_alternative (Tuple_fields (Tuple [IntF 1, StringF [97, 0, 98]]))
          = td_types example_schema"
    by (simp add: example_schema_sel)
  from roundtrip[OF TupleDesc_new_layout_ok[OF example_schema_new] _ this, of "replicate 68 0"]
  have "TupleDesc_deserialize example_schema
     (snd (TupleDesc_serialize example_schema (replicate 68 0)
             (Tuple [IntF 1, StringF [97, 0, 98]])))
     = Tuple [IntF 1, StringF [97]]"
    by (simp add: example_schema_def CHAR_SIZE_def)
  then show ?thesis
    using example_schema_new compatible_example by (simp add: CHAR_SIZE_def)
qed

lemma example_file_sel:
  "tupleDesc example_file = example_schema" "page_capacity example_file = 3"
  "getNumPages example_file = 3" "io_trace example_file = []"
  by (simp_all add: example_file_def getNumPages_def)

section \<open>Properties of the heap file\<close>

text \<open>Claim C8. For a locator whose page index is at or past the page count, \<^verbatim>\<open>next\<close> leaves
  the file as it is (no page is read or written) and sets the locator to the sentinel
  (page count, 0); in particular \<^verbatim>\<open>next\<close> applied to \<^verbatim>\<open>end()\<close> yields \<^verbatim>\<open>end()\<close>.\<close>

theorem next_past_end:
  "(getNumPages f \<le> page it \<longrightarrow>
      HeapFile_next f it = (Inr \<lparr>page = getNumPages f, slot = 0\<rparr>, f)) \<and>
   HeapFile_next f (HeapFile_end f) = (Inr (HeapFile_end f), f)"
  by (simp add: HeapFile_next_def HeapFile_end_def)

theorem next_past_end_witness:
  "HeapFile_next example_file \<lparr>page = 5, slot = 7\<rparr> = (Inr \<lparr>page = 3, slot = 0\<rparr>, example_file) \<and>
   HeapFile_next example_file (HeapFile_end example_file)
     = (Inr (HeapFile_end example_file), example_file)"
  using next_past_end[of example_file "\<lparr>page = 5, slot = 7\<rparr>"]
  by (simp add: example_file_sel)

text \<open>Claim C9. When \<^verbatim>\<open>compatible\<close> does not return true for the record, \<^verbatim>\<open>insertTuple\<close> throws
  and the file is exactly the one before the call: no page read, no page write, the same
  page count.\<close>

theorem insertTuple_incompatible:
  "TupleDesc_compatible (tupleDesc f) t \<noteq> Inr True \<Longrightarrow>
   HeapFile_insertTuple f t = (Inl LogicError, f) \<and>
   io_trace (snd (HeapFile_insertTuple f t)) = io_trace f \<and>
   getNumPages (snd (HeapFile_insertTuple f t)) = getNumPages f"
  by (simp add: HeapFile_insertTuple_def compatible_eq)

theorem insertTuple_incompatible_witness:
  "TupleDesc_compatible (tupleDesc example_file) (Tuple [StringF [97], IntF 1]) \<noteq> Inr True \<and>
   HeapFile_insertTuple example_file (Tuple [StringF [97], IntF 1]) = (Inl LogicError, example_file)"
proof -
  have bad: "TupleDesc_compatible (tupleDesc example_file) (Tuple [StringF [97], IntF 1]) \<noteq> Inr True"
    by (simp add: compatible_eq example_file_sel example_schema_sel)
  from insertTuple_incompatible[OF bad] bad show ?thesis by simp
qed

lemma readPage_ok:
  "i < getNumPages f \<Longrightarrow>
   readPage f i = (Inr (pages f ! i), f\<lparr>io_trace := io_trace f @ [ReadPage i]\<rparr>)"
  by (simp add: readPage_def)

lemma getNumPages_trace [simp]: "getNumPages (f\<lparr>io_trace := tr\<rparr>) = getNumPages f"
  by (simp add: getNumPages_def)

lemma deleteTuple_in_range:
  assumes "page it < getNumPages f"
  shows "HeapFile_deleteTuple f it =
     (case HeapPage_deleteTuple (pages f ! page it) (slot it) of
        (Inl e, pg') \<Rightarrow> (Inl e, f\<lparr>io_trace := io_trace f @ [ReadPage (page it)]\<rparr>)
      | (Inr u, pg') \<Rightarrow>
          (Inr (), f\<lparr>pages := (pages f)[page it := pg'],
                     io_trace := io_trace f @ [ReadPage (page it), WritePage (page it)]\<rparr>))"
  using assms
  by (simp add: HeapFile_deleteTuple_def readPage_ok writePage_def getNumPages_def
      split: prod.splits sum.splits)

lemma getTuple_in_range:
  assumes "page it < getNumPages f"
  shows "HeapFile_getTuple f it =
     (HeapPage_getTuple (tupleDesc f) (pages f ! page it) (slot it),
      f\<lparr>io_trace := io_trace f @ [ReadPage (page it)]\<rparr>)"
  using assms by (simp add: HeapFile_getTuple_def readPage_ok)

text \<open>Claim C7, as amended. \<^verbatim>\<open>deleteTuple\<close> and \<^verbatim>\<open>getTuple\<close> fail with the out-of-range error,
  before any page is read, whenever the page index of the locator is at or past the page
  count. When the page index is below the page count they fail exactly when the page
  rejects the slot: with an out-of-range error for a slot index at or past the capacity of
  the page, with an invalid-slot error for a dead slot. Whenever \<^verbatim>\<open>deleteTuple\<close> fails, and
  for every call of \<^verbatim>\<open>getTuple\<close>, no page is written and the stored pages are the ones before
  the call.\<close>

theorem deleteTuple_getTuple_rejection:
  "(getNumPages f \<le> page it \<longrightarrow>
      HeapFile_deleteTuple f it = (Inl OutOfRange, f) \<and>
      HeapFile_getTuple f it = (Inl OutOfRange, f)) \<and>
   (page it < getNumPages f \<longrightarrow>
      fst (HeapFile_deleteTuple f it) =
        (if length (pages f ! page it) \<le> slot it then Inl OutOfRange
         else if \<not> fst (pages f ! page it ! slot it) then Inl InvalidSlot else Inr ()) \<and>
      fst (HeapFile_getTuple f it) =
        (if length (pages f ! page it) \<le> slot it then Inl OutOfRange
         else if \<not> fst (pages f ! page it ! slot it) then Inl InvalidSlot
         else Inr (TupleDesc_deserialize (tupleDesc f) (snd (pages f ! page it ! slot it))))) \<and>
   ((\<exists>e. fst (HeapFile_deleteTuple f it) = Inl e) \<longrightarrow>
      pages (snd (HeapFile_deleteTuple f it)) = pages f \<and>
      (\<forall>i. WritePage i \<in> set (io_trace (snd (HeapFile_deleteTuple f it)))
             \<longrightarrow> WritePage i \<in> set (io_trace f))) \<and>
   pages (snd (HeapFile_getTuple f it)) = pages f \<and>
   (\<forall>i. WritePage i \<in> set (io_trace (snd (HeapFile_getTuple f it)))
          \<longrightarrow> WritePage i \<in> set (io_trace f))"
proof (cases "page it < getNumPages f")
  case False
  then show ?thesis
    by (simp add: HeapFile_deleteTuple_def HeapFile_getTuple_def)
next
  case True
  show ?thesis
    using True
    by (auto simp: deleteTuple_in_range getTuple_in_range HeapPage_deleteTuple_def
        HeapPage_getTuple_def)
qed

theorem deleteTuple_getTuple_rejection_witness:
  "HeapFile_deleteTuple example_file \<lparr>page = 3, slot = 0\<rparr> = (Inl OutOfRange, example_file) \<and>
   HeapFile_getTuple example_file \<lparr>page = 3, slot = 0\<rparr> = (Inl OutOfRange, example_file) \<and>
   fst (HeapFile_deleteTuple example_file \<lparr>page = 0, slot = 0\<rparr>) = Inl InvalidSlot \<and>
   pages (snd (HeapFile_deleteTuple example_file \<lparr>page = 0, slot = 0\<rparr>)) = pages example_file \<and>
   fst (HeapFile_deleteTuple example_file \<lparr>page = 0, slot = 1\<rparr>) = Inr ()"
  using deleteTuple_getTuple_rejection[of example_file "\<lparr>page = 3, slot = 0\<rparr>"]
    deleteTuple_getTuple_rejection[of example_file "\<lparr>page = 0, slot = 0\<rparr>"]
    deleteTuple_getTuple_rejection[of example_file "\<lparr>page = 0, slot = 1\<rparr>"]
  by (simp add: example_file_sel) (simp add: example_file_def)

text \<open>The "exactly when" of C7 fails: in a file of three pages with three slots each, the
  locator (0, 3) has a page index below the page count, and both operations fail with an
  out-of-range error, raised by the page for the slot.\<close>

theorem deleteTuple_slot_out_of_range_counterexample:
  "page \<lparr>page = 0, slot = 3\<rparr> < getNumPages example_file \<and>
   fst (HeapFile_deleteTuple example_file \<lparr>page = 0, slot = 3\<rparr>) = Inl OutOfRange \<and>
   fst (HeapFile_getTuple example_file \<lparr>page = 0, slot = 3\<rparr>) = Inl OutOfRange"
  by (simp add: deleteTuple_in_range getTuple_in_range example_file_sel
      HeapPage_deleteTuple_def HeapPage_getTuple_def) (simp add: example_file_def)

lemma serialize_loop_no_error:
  assumes len: "length (Tuple_fields t) = length (td_types td)"
    and ty: "\<forall>j < length (td_types td). held_alternative (Tuple_fields t ! j) = td_types td ! j"
  shows "fst (serialize_loop td t i data) = Inr ()"
proof (induction "length (td_types td) - i" arbitrary: i data)
  case 0
  then show ?case by (subst serialize_loop.simps) simp
next
  case (Suc k)
  then have lt: "i < length (td_types td)" by simp
  have IH: "\<And>d. fst (serialize_loop td t (Suc i) d) = Inr ()"
    using Suc(1)[of "Suc i"] Suc(2) by simp
  from ty lt have h: "held_alternative (Tuple_fields t ! i) = td_types td ! i" by simp
  show ?case
  proof (cases "Tuple_fields t ! i")
    case (IntF v)
    then show ?thesis using lt len h IH
      by (subst serialize_loop.simps) (auto simp: Tuple_get_field_def)
  next
    case (DoubleF v)
    then show ?thesis using lt len h IH
      by (subst serialize_loop.simps) (auto simp: Tuple_get_field_def)
  next
    case (StringF s)
    with h have c: "td_types td ! i = CHAR_T" by simp
    show ?thesis using lt len c StringF IH
      by (subst serialize_loop.simps) (simp add: Tuple_get_field_def Let_def)
  qed
qed

lemma serialize_no_error:
  "TupleDesc_compatible td t = Inr True \<Longrightarrow> fst (TupleDesc_serialize td data t) = Inr ()"
proof -
  assume c: "TupleDesc_compatible td t = Inr True"
  then have m: "map held_alternative (Tuple_fields t) = td_types td" by (simp add: compatible_eq)
  have len: "length (Tuple_fields t) = length (td_types td)" using m by (metis length_map)
  have ty: "\<forall>j < length (td_types td). held_alternative (Tuple_fields t ! j) = td_types td ! j"
    using m len by (metis nth_map)
  show ?thesis using c serialize_loop_no_error[OF len ty, of 0 data]
    by (simp add: TupleDesc_serialize_def)
qed

lemma first_dead_full:
  "first_dead pg s = length pg \<longleftrightarrow> (\<forall>k. s \<le> k \<and> k < length pg \<longrightarrow> fst (pg ! k))"
proof (induction pg s rule: first_dead.induct)
  case (1 pg s)
  show ?case
  proof (cases "s < length pg")
    case False
    then show ?thesis by (subst first_dead.simps) auto
  next
    case True
    show ?thesis
    proof (cases "fst (pg ! s)")
      case False
      with True show ?thesis by (subst first_dead.simps) auto
    next
      case live: True
      have "first_dead pg s = first_dead pg (Suc s)"
        using True live by (subst first_dead.simps) simp
      moreover have "(\<forall>k. Suc s \<le> k \<and> k < length pg \<longrightarrow> fst (pg ! k))
                   = (\<forall>k. s \<le> k \<and> k < length pg \<longrightarrow> fst (pg ! k))"
        using live by (metis Suc_leI le_neq_implies_less Suc_leD)
      ultimately show ?thesis using 1[OF True] live by simp
    qed
  qed
qed

lemma first_dead_le: "first_dead pg s \<le> max s (length pg)"
proof (induction pg s rule: first_dead.induct)
  case (1 pg s)
  show ?case
  proof (cases "s < length pg \<and> fst (pg ! s)")
    case True
    then have "first_dead pg s = first_dead pg (Suc s)" by (subst first_dead.simps) simp
    with 1 True show ?thesis by auto
  next
    case False
    then show ?thesis by (subst first_dead.simps) auto
  qed
qed

lemma HeapPage_insertTuple_full:
  "\<forall>k < length pg. fst (pg ! k) \<Longrightarrow> HeapPage_insertTuple td pg t = (Inr False, pg)"
  using first_dead_full[of pg 0] by (simp add: HeapPage_insertTuple_def)

lemma HeapPage_insertTuple_free:
  assumes "TupleDesc_compatible td t = Inr True" and "\<exists>k < length pg. \<not> fst (pg ! k)"
  shows "HeapPage_insertTuple td pg t =
           (Inr True, pg[first_dead pg 0 := (True, snd (TupleDesc_serialize td (snd (pg ! first_dead pg 0)) t))])"
proof -
  have "first_dead pg 0 \<noteq> length pg" using assms(2) first_dead_full[of pg 0] by auto
  then show ?thesis
    using serialize_no_error[OF assms(1), of "snd (pg ! first_dead pg 0)"]
    by (cases "TupleDesc_serialize td (snd (pg ! first_dead pg 0)) t")
       (auto simp: HeapPage_insertTuple_def Let_def)
qed

lemma first_dead_zero_page: "0 < cap \<Longrightarrow> first_dead (zero_page cap len) 0 = 0"
  by (subst first_dead.simps) (simp add: zero_page_def)

lemma HeapPage_insertTuple_result:
  assumes "TupleDesc_compatible td t = Inr True"
  shows "\<exists>ok pg'. HeapPage_insertTuple td pg t = (Inr ok, pg')"
proof (cases "\<exists>k < length pg. \<not> fst (pg ! k)")
  case True
  then show ?thesis using HeapPage_insertTuple_free[OF assms] by blast
next
  case False
  then show ?thesis using HeapPage_insertTuple_full[of pg td t] by auto
qed

lemma insert_into_last_free:
  assumes c: "TupleDesc_compatible (tupleDesc f) t = Inr True" and n: "0 < getNumPages f"
    and free: "\<exists>k < length (last (pages f)). \<not> fst (last (pages f) ! k)"
  shows "\<exists>f'. insert_into_last f t (getNumPages f) = (Inr True, f') \<and>
              getNumPages f' = getNumPages f"
proof -
  have l: "pages f ! (getNumPages f - 1) = last (pages f)"
    using n by (simp add: getNumPages_def last_conv_nth)
  have r: "readPage f (getNumPages f - 1) =
             (Inr (last (pages f)), f\<lparr>io_trace := io_trace f @ [ReadPage (getNumPages f - 1)]\<rparr>)"
    using n readPage_ok[of "getNumPages f - 1" f] l by simp
  show ?thesis
    using n unfolding insert_into_last_def r
    apply (simp add: HeapPage_insertTuple_free[OF c free] writePage_def getNumPages_def)
    apply (cases "pages f")
     apply simp_all
    done
qed

lemma insert_into_last_full:
  assumes n: "0 < getNumPages f"
    and full: "\<forall>k < length (last (pages f)). fst (last (pages f) ! k)"
  shows "insert_into_last f t (getNumPages f) =
           (Inr False, f\<lparr>io_trace := io_trace f @ [ReadPage (getNumPages f - 1)]\<rparr>)"
proof -
  have l: "pages f ! (getNumPages f - 1) = last (pages f)"
    using n by (simp add: getNumPages_def last_conv_nth)
  have r: "readPage f (getNumPages f - 1) =
             (Inr (last (pages f)), f\<lparr>io_trace := io_trace f @ [ReadPage (getNumPages f - 1)]\<rparr>)"
    using n readPage_ok[of "getNumPages f - 1" f] l by simp
  show ?thesis
    unfolding insert_into_last_def r
    by (simp add: HeapPage_insertTuple_full[OF full])
qed

lemma insertTuple_appends:
  assumes c: "TupleDesc_compatible (tupleDesc f) t = Inr True"
    and full: "getNumPages f = 0 \<or> (\<forall>k < length (last (pages f)). fst (last (pages f) ! k))"
  shows "fst (HeapFile_insertTuple f t) = Inr () \<and>
         pages (snd (HeapFile_insertTuple f t)) = pages f @ [inserted_page f t] \<and>
         tupleDesc (snd (HeapFile_insertTuple f t)) = tupleDesc f"
proof -
  let ?f1 = "if getNumPages f = 0 then f
             else f\<lparr>io_trace := io_trace f @ [ReadPage (getNumPages f - 1)]\<rparr>"
  have a: "(if 0 < getNumPages f then insert_into_last f t (getNumPages f) else (Inr False, f))
             = (Inr False, ?f1)"
    using full insert_into_last_full[of f t] by auto
  obtain ok pg' where h: "HeapPage_insertTuple (tupleDesc f)
            (zero_page (page_capacity f) (TupleDesc_length (tupleDesc f))) t = (Inr ok, pg')"
    using HeapPage_insertTuple_result[OF c] by blast
  have ip: "inserted_page f t = pg'" by (simp add: inserted_page_def h)
  have "HeapFile_insertTuple f t = writePage ?f1 pg' (getNumPages f)"
    using c h by (simp add: HeapFile_insertTuple_def a Let_def del: if_split cong: if_cong)
  then show ?thesis
    by (auto simp: writePage_def ip getNumPages_def)
qed

lemma empty_file_sel:
  "tupleDesc empty_file = example_schema" "page_capacity empty_file = 3"
  "getNumPages empty_file = 0" "pages empty_file = []"
  by (simp_all add: empty_file_def getNumPages_def)

lemma inserted_page_eq:
  assumes c: "TupleDesc_compatible (tupleDesc f) t = Inr True"
  shows "inserted_page f t =
     (zero_page (page_capacity f) (TupleDesc_length (tupleDesc f)))
       [0 := (True, snd (TupleDesc_serialize (tupleDesc f)
                           (replicate (TupleDesc_length (tupleDesc f)) 0) t))]"
proof (cases "0 < page_capacity f")
  case True
  then have free: "\<exists>k < length (zero_page (page_capacity f) (TupleDesc_length (tupleDesc f))).
       \<not> fst (zero_page (page_capacity f) (TupleDesc_length (tupleDesc f)) ! k)"
    by (auto simp: zero_page_def)
  show ?thesis
    using True
    by (simp add: inserted_page_def HeapPage_insertTuple_free[OF c free] first_dead_zero_page)
       (simp add: zero_page_def)
next
  case False
  then show ?thesis
    using HeapPage_insertTuple_full[of "zero_page 0 (TupleDesc_length (tupleDesc f))" "tupleDesc f" t]
    by (simp add: inserted_page_def zero_page_def)
qed

lemma getTuple_new_page:
  assumes c: "TupleDesc_compatible (tupleDesc f) t = Inr True"
    and full: "getNumPages f = 0 \<or> (\<forall>k < length (last (pages f)). fst (last (pages f) ! k))"
    and v: "TupleDesc_new tys nms = Inr (tupleDesc f)"
  shows "fst (HeapFile_getTuple (snd (HeapFile_insertTuple f t)) \<lparr>page = getNumPages f, slot = s\<rparr>)
         = (if page_capacity f \<le> s then Inl OutOfRange
            else if s \<noteq> 0 then Inl InvalidSlot
            else Inr (Tuple (map stored_field (Tuple_fields t))))"
proof -
  let ?f' = "snd (HeapFile_insertTuple f t)"
  let ?td = "tupleDesc f"
  from insertTuple_appends[OF c full]
  have p: "pages ?f' = pages f @ [inserted_page f t]" and t: "tupleDesc ?f' = ?td" by simp_all
  have n: "getNumPages f < getNumPages ?f'" by (simp add: getNumPages_def p)
  have g: "fst (HeapFile_getTuple ?f' \<lparr>page = getNumPages f, slot = s\<rparr>)
           = HeapPage_getTuple ?td (inserted_page f t) s"
    using n by (simp add: getTuple_in_range t) (simp add: p getNumPages_def)
  have lay: "layout_ok ?td" by (rule TupleDesc_new_layout_ok[OF v])
  have m: "map held_alternative (Tuple_fields t) = td_types ?td"
    using c by (simp add: compatible_eq)
  have rt: "TupleDesc_deserialize ?td
              (snd (TupleDesc_serialize ?td (replicate (TupleDesc_length ?td) 0) t))
            = Tuple (map stored_field (Tuple_fields t))"
    by (rule roundtrip[OF lay _ m]) (simp add: TupleDesc_length_def)
  show ?thesis
    unfolding g inserted_page_eq[OF c]
    by (auto simp: HeapPage_getTuple_def zero_page_def rt nth_list_update)
qed

text \<open>Claim C2, as amended. For a compatible record: \<^verbatim>\<open>insertTuple\<close> into a file whose last
  page has a dead slot succeeds and leaves the page count as it is; \<^verbatim>\<open>insertTuple\<close> into an
  empty file, or into a file whose last page has no dead slot, succeeds, appends exactly one
  page after the pages already there, and, when a fresh page has at least one slot and the
  schema was built by the constructor, \<^verbatim>\<open>getTuple\<close> at slot 0 of the new page returns the
  record as the codec stores it: int and double fields as they are, every text cut to its
  first 64 bytes and before its first zero byte.\<close>

theorem insertTuple_placement:
  assumes "TupleDesc_compatible (tupleDesc f) t = Inr True"
  shows "(0 < getNumPages f \<and> (\<exists>k < length (last (pages f)). \<not> fst (last (pages f) ! k)) \<longrightarrow>
            fst (HeapFile_insertTuple f t) = Inr () \<and>
            getNumPages (snd (HeapFile_insertTuple f t)) = getNumPages f) \<and>
         (getNumPages f = 0 \<or> (\<forall>k < length (last (pages f)). fst (last (pages f) ! k)) \<longrightarrow>
            fst (HeapFile_insertTuple f t) = Inr () \<and>
            getNumPages (snd (HeapFile_insertTuple f t)) = getNumPages f + 1 \<and>
            take (getNumPages f) (pages (snd (HeapFile_insertTuple f t))) = pages f \<and>
            (0 < page_capacity f \<and> TupleDesc_new tys nms = Inr (tupleDesc f) \<longrightarrow>
               fst (HeapFile_getTuple (snd (HeapFile_insertTuple f t))
                      \<lparr>page = getNumPages f, slot = 0\<rparr>)
                 = Inr (Tuple (map stored_field (Tuple_fields t)))))"
proof (intro conjI impI)
  assume a: "0 < getNumPages f \<and> (\<exists>k < length (last (pages f)). \<not> fst (last (pages f) ! k))"
  then obtain f' where f': "insert_into_last f t (getNumPages f) = (Inr True, f')"
    "getNumPages f' = getNumPages f"
    using insert_into_last_free[OF assms] by blast
  have "HeapFile_insertTuple f t = (Inr (), f')"
    using a assms by (simp add: HeapFile_insertTuple_def f')
  then show "fst (HeapFile_insertTuple f t) = Inr ()"
    "getNumPages (snd (HeapFile_insertTuple f t)) = getNumPages f"
    using f' by simp_all
next
  assume full: "getNumPages f = 0 \<or> (\<forall>k < length (last (pages f)). fst (last (pages f) ! k))"
  from insertTuple_appends[OF assms full]
  show "fst (HeapFile_insertTuple f t) = Inr ()"
    "getNumPages (snd (HeapFile_insertTuple f t)) = getNumPages f + 1"
    "take (getNumPages f) (pages (snd (HeapFile_insertTuple f t))) = pages f"
    by (simp_all add: getNumPages_def)
  assume "0 < page_capacity f \<and> TupleDesc_new tys nms = Inr (tupleDesc f)"
  then show "fst (HeapFile_getTuple (snd (HeapFile_insertTuple f t))
                      \<lparr>page = getNumPages f, slot = 0\<rparr>)
                 = Inr (Tuple (map stored_field (Tuple_fields t)))"
    using getTuple_new_page[OF assms full, of tys nms 0] by simp
qed

theorem insertTuple_placement_witness:
  "getNumPages (snd (HeapFile_insertTuple example_file (Tuple [IntF 1, StringF [97]]))) = 3 \<and>
   fst (HeapFile_insertTuple empty_file (Tuple [IntF 1, StringF [97]])) = Inr () \<and>
   getNumPages (snd (HeapFile_insertTuple empty_file (Tuple [IntF 1, StringF [97]]))) = 0 + 1 \<and>
   fst (HeapFile_getTuple (snd (HeapFile_insertTuple empty_file (Tuple [IntF 1, StringF [97]])))
          \<lparr>page = 0, slot = 0\<rparr>) = Inr (Tuple [IntF 1, StringF [97]])"
proof -
  have c1: "TupleDesc_compatible (tupleDesc example_file) (Tuple [IntF 1, StringF [97]]) = Inr True"
    by (simp add: compatible_eq example_file_sel example_schema_sel)
  have c2: "TupleDesc_compatible (tupleDesc empty_file) (Tuple [IntF 1, StringF [97]]) = Inr True"
    by (simp add: compatible_eq empty_file_sel example_schema_sel)
  have free: "0 < getNumPages example_file \<and>
     (\<exists>k < length (last (pages example_file)). \<not> fst (last (pages example_file) ! k))"
  proof -
    have "last (pages example_file) = [(True, replicate 68 3), (False, replicate 68 0), (True, replicate 68 4)]"
      by (simp add: example_file_def)
    then have "\<exists>k < length (last (pages example_file)). \<not> fst (last (pages example_file) ! k)"
      by (intro exI[of _ 1]) simp
    then show ?thesis by (simp add: example_file_sel)
  qed
  have v: "TupleDesc_new [INT_T, CHAR_T] [''id'', ''name''] = Inr (tupleDesc empty_file)"
    by (simp add: example_schema_new empty_file_sel)
  have a: "getNumPages (snd (HeapFile_insertTuple example_file (Tuple [IntF 1, StringF [97]]))) = 3"
    using insertTuple_placement[OF c1] free by (simp add: example_file_sel)
  have b: "fst (HeapFile_insertTuple empty_file (Tuple [IntF 1, StringF [97]])) = Inr () \<and>
   getNumPages (snd (HeapFile_insertTuple empty_file (Tuple [IntF 1, StringF [97]]))) = 0 + 1 \<and>
   fst (HeapFile_getTuple (snd (HeapFile_insertTuple empty_file (Tuple [IntF 1, StringF [97]])))
          \<lparr>page = 0, slot = 0\<rparr>) = Inr (Tuple [IntF 1, StringF [97]])"
    using insertTuple_placement[OF c2, of "[INT_T, CHAR_T]" "[''id'', ''name'']"] v
    by (simp add: empty_file_sel CHAR_SIZE_def)
  from a b show ?thesis by blast
qed

text \<open>The statement of C2 with the record itself in place of its stored image fails: a
  text of 65 bytes is inserted into the empty file, and no slot of the new page returns
  the record.\<close>

theorem insertTuple_retrieval_counterexample:
  "TupleDesc_compatible (tupleDesc empty_file) (Tuple [IntF 1, StringF (replicate 65 97)])
     = Inr True \<and>
   fst (HeapFile_insertTuple empty_file (Tuple [IntF 1, StringF (replicate 65 97)])) = Inr () \<and>
   \<not> (\<exists>s. fst (HeapFile_getTuple
                  (snd (HeapFile_insertTuple empty_file (Tuple [IntF 1, StringF (replicate 65 97)])))
                  \<lparr>page = getNumPages empty_file, slot = s\<rparr>)
             = Inr (Tuple [IntF 1, StringF (replicate 65 97)]))"
proof -
  let ?t = "Tuple [IntF 1, StringF (replicate 65 97)]"
  have c: "TupleDesc_compatible (tupleDesc empty_file) ?t = Inr True"
    by (simp add: compatible_eq empty_file_sel example_schema_sel)
  have full: "getNumPages empty_file = 0 \<or>
      (\<forall>k < length (last (pages empty_file)). fst (last (pages empty_file) ! k))"
    by (simp add: empty_file_sel)
  have v: "TupleDesc_new [INT_T, CHAR_T] [''id'', ''name''] = Inr (tupleDesc empty_file)"
    by (simp add: example_schema_new empty_file_sel)
  have ok: "fst (HeapFile_insertTuple empty_file ?t) = Inr ()"
    using insertTuple_appends[OF c full] by simp
  have "\<And>s. fst (HeapFile_getTuple (snd (HeapFile_insertTuple empty_file ?t))
                  \<lparr>page = getNumPages empty_file, slot = s\<rparr>) \<noteq> Inr ?t"
    by (simp add: getTuple_new_page[OF c full v] CHAR_SIZE_def)
  with c ok show ?thesis by blast
qed

lemma first_live_eq:
  "first_live pg s =
     (case filter (\<lambda>k. fst (pg ! k)) [s..<length pg] of [] \<Rightarrow> length pg | x # _ \<Rightarrow> x)"
proof (induction pg s rule: first_live.induct)
  case (1 pg s)
  show ?case
  proof (cases "s < length pg")
    case False
    then show ?thesis by (subst first_live.simps) simp
  next
    case True
    show ?thesis
    proof (cases "fst (pg ! s)")
      case live: True
      with True show ?thesis by (subst first_live.simps) (simp add: upt_conv_Cons)
    next
      case False
      have "first_live pg s = first_live pg (Suc s)"
        using True False by (subst first_live.simps) simp
      with 1[OF True False] True False show ?thesis by (simp add: upt_conv_Cons)
    qed
  qed
qed

lemma first_live_end:
  "first_live pg s = length pg \<longleftrightarrow> filter (\<lambda>k. fst (pg ! k)) [s..<length pg] = []"
proof -
  have "x < length pg" if "x \<in> set (filter (\<lambda>k. fst (pg ! k)) [s..<length pg])" for x
    using that by simp
  then show ?thesis
    unfolding first_live_eq
    by (cases "filter (\<lambda>k. fst (pg ! k)) [s..<length pg]") (auto simp: less_le)
qed

lemma page_begin_locator:
  "p < length ps \<Longrightarrow>
   (HeapPage_begin (ps ! p) = HeapPage_end (ps ! p) \<longrightarrow> page_locators ps p = []) \<and>
   (HeapPage_begin (ps ! p) \<noteq> HeapPage_end (ps ! p) \<longrightarrow>
      (\<exists>ls. page_locators ps p = \<lparr>page = p, slot = HeapPage_begin (ps ! p)\<rparr> # ls))"
  unfolding HeapPage_begin_def HeapPage_end_def first_live_end page_locators_def
  by (cases "filter (\<lambda>s. fst (ps ! p ! s)) [0..<length (ps ! p)]") (auto simp: first_live_eq)

lemma first_tuple_from_eq:
  "n = getNumPages f \<Longrightarrow>
   fst (first_tuple_from f p n) =
     Inr (first_or_end n (concat (map (page_locators (pages f)) [p..<n]))) \<and>
   pages (snd (first_tuple_from f p n)) = pages f"
proof (induction f p n rule: first_tuple_from.induct)
  case (1 f p n)
  show ?case
  proof (cases "p < n")
    case False
    then show ?thesis by (subst first_tuple_from.simps, subst (2) first_tuple_from.simps)
        (simp add: first_or_end_def)
  next
    case True
    let ?f1 = "f\<lparr>io_trace := io_trace f @ [ReadPage p]\<rparr>"
    let ?pg = "pages f ! p"
    have r: "readPage f p = (Inr ?pg, ?f1)" using True 1(2) by (simp add: readPage_ok)
    have pl: "p < length (pages f)" using True 1(2) by (simp add: getNumPages_def)
    show ?thesis
    proof (cases "HeapPage_begin ?pg = HeapPage_end ?pg")
      case False
      then obtain ls where "page_locators (pages f) p = \<lparr>page = p, slot = HeapPage_begin ?pg\<rparr> # ls"
        using page_begin_locator[OF pl] by blast
      then show ?thesis using True False r
        by (subst first_tuple_from.simps, subst (2) first_tuple_from.simps)
           (simp add: first_or_end_def upt_conv_Cons)
    next
      case e: True
      then have nil: "page_locators (pages f) p = []"
        using page_begin_locator[OF pl] by blast
      have step: "first_tuple_from f p n = first_tuple_from ?f1 (Suc p) n"
        using True e r by (subst first_tuple_from.simps) simp
      have "fst (first_tuple_from ?f1 (Suc p) n) =
              Inr (first_or_end n (concat (map (page_locators (pages ?f1)) [Suc p..<n]))) \<and>
            pages (snd (first_tuple_from ?f1 (Suc p) n)) = pages ?f1"
        using 1(1)[OF True r[symmetric] refl refl _ ] e 1(2) by simp
      then show ?thesis using step nil True by (simp add: upt_conv_Cons)
    qed
  qed
qed

lemma next_eq:
  assumes "page it < getNumPages f"
  shows "fst (HeapFile_next f it) =
           Inr (first_or_end (getNumPages f) (locators_after (pages f) it)) \<and>
         pages (snd (HeapFile_next f it)) = pages f"
proof -
  let ?n = "getNumPages f"
  let ?f1 = "f\<lparr>io_trace := io_trace f @ [ReadPage (page it)]\<rparr>"
  let ?pg = "pages f ! page it"
  let ?live = "filter (\<lambda>s. fst (?pg ! s)) [Suc (slot it)..<length ?pg]"
  have r: "readPage f (page it) = (Inr ?pg, ?f1)" using assms by (simp add: readPage_ok)
  show ?thesis
  proof (cases "HeapPage_next ?pg (slot it) = HeapPage_end ?pg")
    case False
    then obtain x xs where l: "?live = x # xs"
      unfolding HeapPage_next_def HeapPage_end_def first_live_end by (cases ?live) auto
    then have "HeapPage_next ?pg (slot it) = x"
      by (simp add: HeapPage_next_def first_live_eq)
    moreover have "it\<lparr>slot := x\<rparr> = \<lparr>page = page it, slot = x\<rparr>" by simp
    ultimately show ?thesis using assms False r l
      by (simp add: HeapFile_next_def Let_def locators_after_def first_or_end_def)
  next
    case True
    then have nil: "?live = []"
      unfolding HeapPage_next_def HeapPage_end_def first_live_end .
    have "HeapFile_next f it = first_tuple_from ?f1 (page it + 1) ?n"
      using assms True r by (simp add: HeapFile_next_def Let_def)
    moreover have "fst (first_tuple_from ?f1 (page it + 1) ?n) =
        Inr (first_or_end ?n (concat (map (page_locators (pages ?f1)) [page it + 1..<?n]))) \<and>
        pages (snd (first_tuple_from ?f1 (page it + 1) ?n)) = pages ?f1"
      by (rule first_tuple_from_eq) simp
    ultimately show ?thesis using nil
      by (simp add: locators_after_def getNumPages_def)
  qed
qed

lemma begin_eq:
  "fst (HeapFile_begin f) = Inr (first_or_end (getNumPages f) (live_locators (pages f))) \<and>
   pages (snd (HeapFile_begin f)) = pages f"
  using first_tuple_from_eq[of "getNumPages f" f 0]
  by (simp add: HeapFile_begin_def live_locators_def getNumPages_def)

lemma filter_gt_upt: "filter (\<lambda>x. s < x) [0..<m] = [Suc s..<m]"
proof (induction m)
  case 0
  then show ?case by simp
next
  case (Suc m)
  then show ?case by (cases "s < m") (auto simp: upt_Suc_append)
qed

lemma filter_page_locators:
  "filter (locator_less it) (page_locators ps q) =
     (if q < page it then []
      else if q = page it
      then map (\<lambda>s. \<lparr>page = page it, slot = s\<rparr>)
             (filter (\<lambda>s. fst (ps ! page it ! s)) [Suc (slot it)..<length (ps ! page it)])
      else page_locators ps q)"
proof -
  have a: "q < page it \<Longrightarrow> filter (locator_less it) (page_locators ps q) = []"
    by (auto simp: page_locators_def locator_less_def filter_empty_conv)
  have b: "page it < q \<Longrightarrow> filter (locator_less it) (page_locators ps q) = page_locators ps q"
    by (auto simp: page_locators_def locator_less_def filter_id_conv)
  have "filter (locator_less it) (page_locators ps (page it)) =
        map (\<lambda>s. \<lparr>page = page it, slot = s\<rparr>)
          (filter (\<lambda>s. fst (ps ! page it ! s)) (filter (\<lambda>x. slot it < x) [0..<length (ps ! page it)]))"
    by (simp add: page_locators_def locator_less_def filter_map comp_def conj_commute)
  then have c: "filter (locator_less it) (page_locators ps (page it)) =
        map (\<lambda>s. \<lparr>page = page it, slot = s\<rparr>)
          (filter (\<lambda>s. fst (ps ! page it ! s)) [Suc (slot it)..<length (ps ! page it)])"
    by (simp only: filter_gt_upt)
  show ?thesis using a b c by (cases "q < page it"; cases "q = page it") auto
qed

lemma locators_after_filter:
  assumes "page it < length ps"
  shows "filter (locator_less it) (live_locators ps) = locators_after ps it"
proof -
  have split: "[0..<length ps] = [0..<page it] @ page it # [Suc (page it)..<length ps]"
    using assms by (metis upt_conv_Cons upt_add_eq_append le0 add_0 le_add_diff_inverse less_imp_le)
  have 1: "concat (map (\<lambda>q. filter (locator_less it) (page_locators ps q)) [0..<page it]) = []"
    by (simp add: filter_page_locators)
  have 2: "concat (map (\<lambda>q. filter (locator_less it) (page_locators ps q)) [Suc (page it)..<length ps])
           = concat (map (page_locators ps) [Suc (page it)..<length ps])"
    by (rule arg_cong[where f=concat], rule map_cong) (auto simp: filter_page_locators)
  have "filter (locator_less it) (live_locators ps) =
        concat (map (\<lambda>q. filter (locator_less it) (page_locators ps q)) [0..<length ps])"
    by (simp add: live_locators_def filter_concat comp_def)
  also have "\<dots> = filter (locator_less it) (page_locators ps (page it)) @
                  concat (map (page_locators ps) [Suc (page it)..<length ps])"
    by (subst split) (simp add: 1 2)
  finally show ?thesis by (simp add: filter_page_locators locators_after_def)
qed

lemma set_page_locators:
  "set (page_locators ps p) =
     {it. page it = p \<and> slot it < length (ps ! p) \<and> fst (ps ! p ! slot it)}"
proof -
  have "it \<in> set (page_locators ps p) \<longleftrightarrow>
        page it = p \<and> slot it < length (ps ! p) \<and> fst (ps ! p ! slot it)" for it
  proof
    assume "it \<in> set (page_locators ps p)"
    then show "page it = p \<and> slot it < length (ps ! p) \<and> fst (ps ! p ! slot it)"
      by (auto simp: page_locators_def)
  next
    assume a: "page it = p \<and> slot it < length (ps ! p) \<and> fst (ps ! p ! slot it)"
    then have "it = \<lparr>page = p, slot = slot it\<rparr>" by simp
    with a show "it \<in> set (page_locators ps p)"
      unfolding page_locators_def by (metis (mono_tags, lifting) atLeast0LessThan image_eqI
          lessThan_iff list.set_map mem_Collect_eq set_filter set_upt)
  qed
  then show ?thesis by blast
qed

lemma set_live_locators:
  "set (live_locators ps) =
     {it. page it < length ps \<and> slot it < length (ps ! page it) \<and> fst (ps ! page it ! slot it)}"
  by (auto simp: live_locators_def set_page_locators)

lemma sorted_page_locators: "sorted_wrt locator_less (page_locators ps p)"
proof -
  have "sorted_wrt (<) (filter (\<lambda>s. fst (ps ! p ! s)) [0..<length (ps ! p)])"
    by (intro sorted_wrt_filter) (simp add: sorted_wrt_iff_nth_less)
  then have "sorted_wrt (\<lambda>x y. locator_less \<lparr>page = p, slot = x\<rparr> \<lparr>page = p, slot = y\<rparr>)
               (filter (\<lambda>s. fst (ps ! p ! s)) [0..<length (ps ! p)])"
    by (rule sorted_wrt_mono_rel[rotated]) (simp add: locator_less_def)
  then show ?thesis by (simp add: page_locators_def sorted_wrt_map)
qed

lemma sorted_locators_upto:
  "sorted_wrt locator_less (concat (map (page_locators ps) [0..<m]))"
proof (induction m)
  case 0
  then show ?case by simp
next
  case (Suc m)
  have "locator_less x y"
    if "x \<in> set (concat (map (page_locators ps) [0..<m]))" "y \<in> set (page_locators ps m)" for x y
    using that by (auto simp: set_page_locators locator_less_def)
  with Suc sorted_page_locators[of ps m] show ?case
    by (simp add: sorted_wrt_append)
qed

lemma sorted_live_locators: "sorted_wrt locator_less (live_locators ps)"
  by (simp add: live_locators_def sorted_locators_upto)

lemma distinct_live_locators: "distinct (live_locators ps)"
proof -
  have "sorted_wrt (\<lambda>a b. a \<noteq> b) (live_locators ps)"
    by (rule sorted_wrt_mono_rel[OF _ sorted_live_locators]) (auto simp: locator_less_def)
  then show ?thesis by (simp add: distinct_conv_nth sorted_wrt_iff_nth_less) (metis nat_neq_iff)
qed

lemma filter_after_sorted:
  assumes "sorted_wrt locator_less (xs @ a # ys)"
  shows "filter (locator_less a) (xs @ a # ys) = ys"
proof -
  from assms have 1: "\<forall>x \<in> set xs. locator_less x a" and 2: "\<forall>y \<in> set ys. locator_less a y"
    by (auto simp: sorted_wrt_append)
  from 1 have "filter (locator_less a) xs = []"
    by (auto simp: filter_empty_conv locator_less_def)
  moreover from 2 have "filter (locator_less a) ys = ys"
    by (simp add: filter_id_conv)
  moreover have "\<not> locator_less a a" by (simp add: locator_less_def)
  ultimately show ?thesis by simp
qed

lemma next_in_scan:
  assumes "live_locators (pages f) = xs @ it # ys"
  shows "fst (HeapFile_next f it) = Inr (first_or_end (getNumPages f) ys) \<and>
         pages (snd (HeapFile_next f it)) = pages f \<and> it \<noteq> HeapFile_end f"
proof -
  have "it \<in> set (live_locators (pages f))" using assms by simp
  then have p: "page it < getNumPages f"
    by (simp add: set_live_locators getNumPages_def)
  have "locators_after (pages f) it = ys"
    using locators_after_filter[of it "pages f"] p sorted_live_locators[of "pages f"]
      filter_after_sorted[of xs it ys] assms by (simp add: getNumPages_def)
  with next_eq[OF p] p show ?thesis by (auto simp: HeapFile_end_def)
qed

lemma scan_loop_eq:
  "live_locators (pages f) = xs @ it # ys \<Longrightarrow> length ys + 1 < k \<Longrightarrow>
   scan_loop k f it = Some (it # ys)"
proof (induction ys arbitrary: xs it k f)
  case Nil
  then obtain k' where k: "k = Suc (Suc k')" by (cases k; cases "k - 1") auto
  obtain r f1 where n: "HeapFile_next f it = (r, f1)" by (cases "HeapFile_next f it")
  from next_in_scan[OF Nil(1)] n have r: "r = Inr (HeapFile_end f)"
    and p: "pages f1 = pages f" and ne: "it \<noteq> HeapFile_end f"
    by (simp_all add: first_or_end_def HeapFile_end_def)
  have e: "HeapFile_end f1 = HeapFile_end f" using p by (simp add: HeapFile_end_def getNumPages_def)
  show ?case using ne n r e by (simp add: k)
next
  case (Cons y ys)
  then obtain k' where k: "k = Suc k'" and k': "length ys + 1 < k'" by (cases k) auto
  obtain r f1 where n: "HeapFile_next f it = (r, f1)" by (cases "HeapFile_next f it")
  from next_in_scan[OF Cons(2)] n have r: "r = Inr y"
    and p: "pages f1 = pages f" and ne: "it \<noteq> HeapFile_end f"
    by (simp_all add: first_or_end_def)
  have "live_locators (pages f1) = (xs @ [it]) @ y # ys" using Cons(2) p by simp
  from Cons(1)[OF this k'] have "scan_loop k' f1 y = Some (y # ys)" .
  then show ?case using ne n r by (simp add: k)
qed

lemma full_scan_eq:
  assumes "length (live_locators (pages f)) < k"
  shows "full_scan k f = Some (live_locators (pages f))"
proof -
  obtain r f1 where b: "HeapFile_begin f = (r, f1)" by (cases "HeapFile_begin f")
  with begin_eq[of f] have r: "r = Inr (first_or_end (getNumPages f) (live_locators (pages f)))"
    and p: "pages f1 = pages f" by simp_all
  show ?thesis
  proof (cases "live_locators (pages f)")
    case Nil
    obtain k' where k: "k = Suc k'" using assms by (cases k) auto
    have "first_or_end (getNumPages f) [] = HeapFile_end f1"
      using p by (simp add: first_or_end_def HeapFile_end_def getNumPages_def)
    then show ?thesis using b r Nil by (simp add: full_scan_def k)
  next
    case (Cons a ys)
    then have "live_locators (pages f1) = [] @ a # ys" using p by simp
    from scan_loop_eq[OF this, of k] assms Cons
    have "scan_loop k f1 a = Some (a # ys)" by simp
    then show ?thesis using b r Cons by (simp add: full_scan_def first_or_end_def)
  qed
qed

lemma example_file_live:
  "live_locators (pages example_file) =
     [\<lparr>page = 0, slot = 1\<rparr>, \<lparr>page = 0, slot = 2\<rparr>, \<lparr>page = 2, slot = 0\<rparr>, \<lparr>page = 2, slot = 2\<rparr>]"
  by (simp add: live_locators_def page_locators_def example_file_def upt_rec)

text \<open>Claim C1. For every file, the scan that starts at \<^verbatim>\<open>begin()\<close> and calls \<^verbatim>\<open>next\<close> until the
  locator equals \<^verbatim>\<open>end()\<close> returns (with any fuel above the number of live slots) and visits
  exactly the list \<open>live_locators\<close>. That list holds every live slot of every page, each
  once, in strictly increasing (page, slot) order; and \<^verbatim>\<open>next\<close> from its last element is the
  sentinel (page count, 0).\<close>

theorem full_scan_visits_live_slots:
  "(\<forall>k > length (live_locators (pages f)). full_scan k f = Some (live_locators (pages f))) \<and>
   set (live_locators (pages f)) =
     {it. page it < getNumPages f \<and> slot it < length (pages f ! page it) \<and>
          fst (pages f ! page it ! slot it)} \<and>
   distinct (live_locators (pages f)) \<and>
   sorted_wrt locator_less (live_locators (pages f)) \<and>
   (live_locators (pages f) \<noteq> [] \<longrightarrow>
      fst (HeapFile_next f (last (live_locators (pages f)))) = Inr (HeapFile_end f))"
proof (intro conjI allI impI)
  fix k assume "length (live_locators (pages f)) < k"
  then show "full_scan k f = Some (live_locators (pages f))" by (rule full_scan_eq)
next
  show "set (live_locators (pages f)) =
     {it. page it < getNumPages f \<and> slot it < length (pages f ! page it) \<and>
          fst (pages f ! page it ! slot it)}"
    by (simp add: set_live_locators getNumPages_def)
next
  show "distinct (live_locators (pages f))" by (rule distinct_live_locators)
next
  show "sorted_wrt locator_less (live_locators (pages f))" by (rule sorted_live_locators)
next
  assume "live_locators (pages f) \<noteq> []"
  then have "live_locators (pages f) = butlast (live_locators (pages f)) @
               last (live_locators (pages f)) # []"
    by simp
  from next_in_scan[OF this]
  show "fst (HeapFile_next f (last (live_locators (pages f)))) = Inr (HeapFile_end f)"
    by (simp add: first_or_end_def HeapFile_end_def)
qed

theorem full_scan_visits_live_slots_witness:
  "full_scan 5 example_file =
     Some [\<lparr>page = 0, slot = 1\<rparr>, \<lparr>page = 0, slot = 2\<rparr>, \<lparr>page = 2, slot = 0\<rparr>,
           \<lparr>page = 2, slot = 2\<rparr>] \<and>
   fst (HeapFile_next example_file \<lparr>page = 2, slot = 2\<rparr>) = Inr \<lparr>page = 3, slot = 0\<rparr>"
  using full_scan_visits_live_slots[of example_file]
  by (simp add: example_file_live HeapFile_end_def example_file_sel)

end
